theory Spec2Isabelle
  imports Complex_Main
begin

section \<open>JavaScript numbers\<close>

text \<open>
  A JavaScript number is an IEEE 754 double. The finite doubles are modelled as the real
  numbers they denote, and each arithmetic operation as the exact operation followed by
  rounding to the nearest double, ties to even: a double in the binade of \<open>v\<close> is a whole
  multiple of \<open>2\<close> to the power \<open>ulp_exponent v\<close>, with 53 bits of mantissa, subnormal
  numbers included. Overflow to infinity, NaN and the sign of zero are not modelled; the
  statements below are about values far from them.
\<close>

definition round_even :: "real \<Rightarrow> int" where
  "round_even v =
     (let f = \<lfloor>v\<rfloor>; d = v - of_int f
      in if d < 1 / 2 then f else if 1 / 2 < d then f + 1 else if even f then f else f + 1)"

definition ulp_exponent :: "real \<Rightarrow> int" where
  "ulp_exponent v = max (\<lfloor>log 2 \<bar>v\<bar>\<rfloor> - 52) (- 1074)"

definition round_double :: "real \<Rightarrow> real" where
  "round_double v =
     (if v = 0 then 0
      else of_int (round_even (v / 2 powr of_int (ulp_exponent v))) * 2 powr of_int (ulp_exponent v))"

text \<open>The double \<^verbatim>\<open>Math.PI\<close>, which is \<open>884279719003555 / 2 ^ 48\<close>.\<close>

definition Math_PI :: real where
  "Math_PI = 884279719003555 / 281474976710656"


section \<open>Utility functions (App.tsx, lines 6-11)\<close>

text \<open>
  \<^verbatim>\<open>const lerp = (a, b, t) => a + (b - a) * t;\<close>
\<close>

definition lerp :: "real \<Rightarrow> real \<Rightarrow> real \<Rightarrow> real" where
  "lerp a b t = round_double (a + round_double (round_double (b - a) * t))"

text \<open>
  \<^verbatim>\<open>
  const normalizeAngle = (a) => {
    while (a > Math.PI) a -= Math.PI * 2;
    while (a < -Math.PI) a += Math.PI * 2;
    return a;
  };
  \<close>
  Each \<^verbatim>\<open>while\<close> loop is a recursive function of the variable \<^verbatim>\<open>a\<close>. A loop that
  does not end has the value \<open>None\<close>.
\<close>

partial_function (option) normalizeAngle_down :: "real \<Rightarrow> real option" where
  "normalizeAngle_down a =
     (if a > Math_PI then normalizeAngle_down (round_double (a - round_double (Math_PI * 2)))
      else Some a)"

partial_function (option) normalizeAngle_up :: "real \<Rightarrow> real option" where
  "normalizeAngle_up a =
     (if a < - Math_PI then normalizeAngle_up (round_double (a + round_double (Math_PI * 2)))
      else Some a)"

definition normalizeAngle :: "real \<Rightarrow> real option" where
  "normalizeAngle a =
     (case normalizeAngle_down a of None \<Rightarrow> None | Some b \<Rightarrow> normalizeAngle_up b)"


section \<open>The animated counter (App.tsx, lines 14-41)\<close>

text \<open>
  One run of the effect of \<^verbatim>\<open>useAnimatedCounter\<close> owns the closure variables
  \<^verbatim>\<open>startTime\<close> (undefined at first) and \<^verbatim>\<open>startCount\<close>, and the \<^verbatim>\<open>target\<close>
  and \<^verbatim>\<open>duration\<close> of the render that installed it. The callback \<^verbatim>\<open>animate\<close>
  keeps registering itself with \<^verbatim>\<open>requestAnimationFrame\<close> until the progress reaches 1;
  the cleanup of the effect does not cancel it.
\<close>

record anim_loop =
  startCount :: real
  loop_target :: real
  loop_duration :: real
  startTime :: "real option"

text \<open>
  The hook instance: the state \<^verbatim>\<open>count\<close>, the ref \<^verbatim>\<open>countRef.current\<close>, the
  dependencies \<^verbatim>\<open>[target, duration]\<close> of the installed effect, and the callbacks
  waiting for the next animation frame, in the order of their registration.
\<close>

record counter_hook =
  count_hook :: int
  countRef :: real
  dep_target :: real
  dep_duration :: real
  loops :: "anim_loop list"

text \<open>
  \<^verbatim>\<open>
  const animate = (timestamp) => {
    if (!startTime) startTime = timestamp;
    const progress = Math.min((timestamp - startTime) / duration, 1);
    const newCount = Math.floor(lerp(startCount, target, progress));
    setCount(newCount);
    if (progress < 1) requestAnimationFrame(animate);
  };
  \<close>
  \<^verbatim>\<open>!startTime\<close> holds for \<^verbatim>\<open>undefined\<close> and for 0. The result is the count handed to
  \<^verbatim>\<open>setCount\<close>, the closure after the call, and whether another frame was requested.
  The subtraction and the division are those of doubles; the duration is taken non-zero
  (a division by zero, with its infinite or undefined quotient, is not modelled).
\<close>

definition animate :: "real \<Rightarrow> anim_loop \<Rightarrow> int \<times> anim_loop \<times> bool" where
  "animate timestamp l =
     (let st = (if startTime l = None \<or> startTime l = Some 0 then timestamp
                else the (startTime l));
          progress = min (round_double (round_double (timestamp - st) / loop_duration l)) 1;
          newCount = \<lfloor>lerp (startCount l) (loop_target l) progress\<rfloor>
      in (newCount, l\<lparr>startTime := Some st\<rparr>, progress < 1))"

text \<open>
  One animation frame runs every waiting callback with the same timestamp, in order; the
  last \<^verbatim>\<open>setCount\<close> of the frame is the state of the next render.
\<close>

fun run_loops :: "real \<Rightarrow> anim_loop list \<Rightarrow> int \<Rightarrow> int \<times> anim_loop list" where
  "run_loops timestamp [] c = (c, [])"
| "run_loops timestamp (l # ls) c =
     (case animate timestamp l of
        (newCount, l', again) \<Rightarrow>
          (case run_loops timestamp ls newCount of
             (c', ls') \<Rightarrow> (c', if again then l' # ls' else ls')))"

definition frame :: "real \<Rightarrow> counter_hook \<Rightarrow> counter_hook" where
  "frame timestamp h =
     (case run_loops timestamp (loops h) (count_hook h) of
        (c, ls) \<Rightarrow> h\<lparr>count_hook := c, loops := ls\<rparr>)"

text \<open>
  \<^verbatim>\<open>
  useEffect(() => {
    let startTime: number;
    const startCount = countRef.current;
    const animate = ...;
    requestAnimationFrame(animate);
    return () => { countRef.current = target; }
  }, [target, duration]);
  \<close>
  The effect of a render with \<open>target\<close> and \<open>duration\<close> reads the ref and requests the
  first frame; its cleanup stores its own target in the ref.
\<close>

definition counter_effect :: "real \<Rightarrow> real \<Rightarrow> counter_hook \<Rightarrow> counter_hook" where
  "counter_effect target duration h =
     h\<lparr>dep_target := target, dep_duration := duration,
       loops := loops h @ [\<lparr>startCount = countRef h, loop_target = target,
                            loop_duration = duration, startTime = None\<rparr>]\<rparr>"

definition counter_cleanup :: "counter_hook \<Rightarrow> counter_hook" where
  "counter_cleanup h = h\<lparr>countRef := dep_target h\<rparr>"

text \<open>The first render: \<^verbatim>\<open>useState(0)\<close>, \<^verbatim>\<open>useRef(count)\<close>, and the effect.\<close>

definition useAnimatedCounter_mount :: "real \<Rightarrow> real \<Rightarrow> counter_hook" where
  "useAnimatedCounter_mount target duration =
     counter_effect target duration
       \<lparr>count_hook = 0, countRef = 0, dep_target = target, dep_duration = duration,
        loops = []\<rparr>"

text \<open>
  A later render: when a dependency changed, the cleanup of the installed effect runs,
  then the new effect.
\<close>

definition useAnimatedCounter :: "real \<Rightarrow> real \<Rightarrow> counter_hook \<Rightarrow> counter_hook" where
  "useAnimatedCounter target duration h =
     (if target = dep_target h \<and> duration = dep_duration h then h
      else counter_effect target duration (counter_cleanup h))"

text \<open>The default of the parameter: \<^verbatim>\<open>duration = 1500\<close>.\<close>

definition default_duration :: real where
  "default_duration = 1500"


section \<open>The leaders of the school (App.tsx, lines 135-149)\<close>

text \<open>
  The orbit is stated in exact real arithmetic, with the real cosine and sine: what is
  said about it below is the formula and what it depends on, which rounding does not
  touch.
\<close>

record leader =
  x :: real
  y :: real
  speed :: real
  offset :: real

text \<open>
  \<^verbatim>\<open>
  leader.x = (width / 2) + Math.cos(time * leader.speed + leader.offset) * (width * 0.4);
  leader.y = (height / 2) + Math.sin(time * leader.speed * 0.7 + leader.offset) * (height * 0.3);
  \<close>
\<close>

definition move_leader :: "real \<Rightarrow> real \<Rightarrow> real \<Rightarrow> leader \<Rightarrow> leader" where
  "move_leader time width height l =
     l\<lparr>x := (width / 2) + cos (time * speed l + offset l) * (width * 0.4),
       y := (height / 2) + sin (time * speed l * 0.7 + offset l) * (height * 0.3)\<rparr>"

text \<open>
  The part of \<^verbatim>\<open>animate\<close> of the canvas that moves the leaders: nothing happens while
  the canvas or its context is missing; otherwise \<^verbatim>\<open>time = Date.now() * 0.0001\<close> and
  every leader is moved. \<open>now\<close> is the value of \<^verbatim>\<open>Date.now()\<close>, the canvas is given
  by its client width and height.
\<close>

definition animate_leaders :: "(real \<times> real) option \<Rightarrow> real \<Rightarrow> leader list \<Rightarrow> leader list" where
  "animate_leaders canvas now leaders =
     (case canvas of
        None \<Rightarrow> leaders
      | Some (width, height) \<Rightarrow> map (move_leader (now * 0.0001) width height) leaders)"


section \<open>Data of the scan workflow (types.ts)\<close>

text \<open>The enumeration \<^verbatim>\<open>Section\<close> of the four views.\<close>

datatype Section = Home | About | Scanning | SavedData

record organism_result =
  count :: int
  accuracy :: real

record scan_results =
  plankton :: organism_result
  algae :: organism_result
  bacteria :: organism_result
  protozoa :: organism_result

text \<open>
  A \<^verbatim>\<open>File\<close> is its name and its media type. The image of a saved scan is
  \<^verbatim>\<open>reader.result\<close>, which is \<^verbatim>\<open>null\<close> after a failed read; the timestamp is the
  clock reading of \<^verbatim>\<open>new Date()\<close>.
\<close>

record File =
  name :: string
  media_type :: string

record saved_scan =
  results :: scan_results
  image_str :: "string option"
  timestamp :: nat


section \<open>The application and its scanning view (App.tsx, lines 420-500 and 607-647)\<close>

text \<open>
  An object URL is identified by the number of the \<^verbatim>\<open>URL.createObjectURL\<close> call that
  made it. Every call is logged, and the store of the browser holds the URLs that are live.
\<close>

type_synonym url = nat

datatype url_op = CreateObjectURL url | RevokeObjectURL url

text \<open>
  The continuations of \<^verbatim>\<open>startScan\<close> that wait for something: the 2000 ms timeout, the
  promise of \<^verbatim>\<open>getMarineOrganismCounts()\<close>, and the 100 ms timer that shows the results.
\<close>

datatype task = AwaitDelay | AwaitAnalysis | ShowTimer

text \<open>
  The state of the \<^verbatim>\<open>Scanning\<close> component (its seven \<^verbatim>\<open>useState\<close> cells), of the
  browser around it (object URLs, pending continuations, pending file readers, alerts,
  console) and of \<^verbatim>\<open>App\<close> (\<^verbatim>\<open>savedScans\<close>, \<^verbatim>\<open>currentSection\<close>). \<open>analyzeCalls\<close>
  counts the calls of \<^verbatim>\<open>getMarineOrganismCounts\<close>, \<open>saveCalls\<close> logs the calls of
  \<^verbatim>\<open>onSaveScan\<close>.

  \<^verbatim>\<open>App\<close> renders the \<^verbatim>\<open>Scanning\<close> component only while \<^verbatim>\<open>currentSection\<close> is the
  scanning section. The seven cells are those of the instance that is rendered; while none
  is rendered they hold the initial values, with which the next instance starts. \<open>tasks\<close>
  are the pending continuations of the rendered instance, \<open>orphans\<close> those of instances
  that are gone: an orphan still runs, but the setters it calls belong to an unmounted
  component and do nothing.
\<close>

record world =
  isScanning :: bool
  scanResults :: "scan_results option"
  showResults :: bool
  uploadedFile :: "File option"
  filePreviewUrl :: "url option"
  isDragging :: bool
  isDataSaved :: bool
  blobStore :: "url list"
  nextBlob :: url
  urlCalls :: "url_op list"
  tasks :: "task list"
  analyzeCalls :: nat
  savedScans :: "saved_scan list"
  readers :: "(scan_results \<times> File) list"
  saveCalls :: "(scan_results \<times> File) list"
  alerts :: "string list"
  consoleErrors :: "string list"
  currentSection :: Section
  orphans :: "task list"

text \<open>
  The application starts on the home view (\<^verbatim>\<open>useState<Section>(Section.Home)\<close>).
  \<open>initial_world\<close> is the state in which the scanning view is rendered for the first
  time: the one navigation from the home view to it has happened, and nothing else.
\<close>

definition app_start :: world where
  "app_start =
     \<lparr>isScanning = False, scanResults = None, showResults = False, uploadedFile = None,
      filePreviewUrl = None, isDragging = False, isDataSaved = False,
      blobStore = [], nextBlob = 0, urlCalls = [], tasks = [], analyzeCalls = 0,
      savedScans = [], readers = [], saveCalls = [], alerts = [], consoleErrors = [],
      currentSection = Home, orphans = []\<rparr>"

definition initial_world :: world where
  "initial_world =
     \<lparr>isScanning = False, scanResults = None, showResults = False, uploadedFile = None,
      filePreviewUrl = None, isDragging = False, isDataSaved = False,
      blobStore = [], nextBlob = 0, urlCalls = [], tasks = [], analyzeCalls = 0,
      savedScans = [], readers = [], saveCalls = [], alerts = [], consoleErrors = [],
      currentSection = Scanning, orphans = []\<rparr>"

definition revokeObjectURL :: "url \<Rightarrow> world \<Rightarrow> world" where
  "revokeObjectURL u w =
     w\<lparr>blobStore := removeAll u (blobStore w), urlCalls := urlCalls w @ [RevokeObjectURL u]\<rparr>"

definition createObjectURL :: "world \<Rightarrow> url \<times> world" where
  "createObjectURL w =
     (nextBlob w,
      w\<lparr>blobStore := blobStore w @ [nextBlob w], nextBlob := Suc (nextBlob w),
        urlCalls := urlCalls w @ [CreateObjectURL (nextBlob w)]\<rparr>)"

text \<open>\<^verbatim>\<open>file.type.startsWith('image/')\<close>\<close>

definition is_image :: "File \<Rightarrow> bool" where
  "is_image f = (take 6 (media_type f) = ''image/'')"

text \<open>
  \<^verbatim>\<open>
  const handleFileChange = (file: File | null) => {
    if (filePreviewUrl) URL.revokeObjectURL(filePreviewUrl);
    if (file && file.type.startsWith('image/')) {
      setUploadedFile(file);
      setFilePreviewUrl(URL.createObjectURL(file));
      setShowResults(false);
      setScanResults(null);
      setIsDataSaved(false);
    } else {
      setUploadedFile(null);
      setFilePreviewUrl(null);
    }
  };
  \<close>
\<close>

definition handleFileChange :: "File option \<Rightarrow> world \<Rightarrow> world" where
  "handleFileChange fl w =
     (let w1 = (case filePreviewUrl w of Some u \<Rightarrow> revokeObjectURL u w | None \<Rightarrow> w)
      in if fl \<noteq> None \<and> is_image (the fl)
         then (case createObjectURL w1 of
                 (u, w2) \<Rightarrow> w2\<lparr>uploadedFile := fl, filePreviewUrl := Some u,
                               showResults := False, scanResults := None,
                               isDataSaved := False\<rparr>)
         else w1\<lparr>uploadedFile := None, filePreviewUrl := None\<rparr>)"

text \<open>
  The drop zone and the file input hand the first file of their list to
  \<^verbatim>\<open>handleFileChange\<close>; a drop without files stages nothing, an input change without
  files stages \<^verbatim>\<open>null\<close>.
\<close>

definition handleDrop :: "File list \<Rightarrow> world \<Rightarrow> world" where
  "handleDrop files w =
     (let w1 = w\<lparr>isDragging := False\<rparr>
      in case files of [] \<Rightarrow> w1 | f # _ \<Rightarrow> handleFileChange (Some f) w1)"

definition onFileInputChange :: "File list \<Rightarrow> world \<Rightarrow> world" where
  "onFileInputChange files w =
     handleFileChange (case files of [] \<Rightarrow> None | f # _ \<Rightarrow> Some f) w"

text \<open>
  \<^verbatim>\<open>
  const startScan = async () => {
    if (isScanning || !uploadedFile) return;
    setIsScanning(true);
    setShowResults(false);
    setIsDataSaved(false);
    await new Promise(resolve => setTimeout(resolve, 2000));
    const results = await getMarineOrganismCounts();
    setScanResults(results);
    setIsScanning(false);
    if (results) setTimeout(() => setShowResults(true), 100);
  };
  \<close>
  The function runs up to its first \<^verbatim>\<open>await\<close>; the rest are the two continuations below
  and the callback of the last timer.
\<close>

definition startScan :: "world \<Rightarrow> world" where
  "startScan w =
     (if isScanning w \<or> uploadedFile w = None then w
      else w\<lparr>isScanning := True, showResults := False, isDataSaved := False,
             tasks := tasks w @ [AwaitDelay]\<rparr>)"

definition startScan_afterDelay :: "world \<Rightarrow> world" where
  "startScan_afterDelay w =
     w\<lparr>analyzeCalls := Suc (analyzeCalls w), tasks := tasks w @ [AwaitAnalysis]\<rparr>"

definition startScan_afterAnalysis :: "scan_results option \<Rightarrow> world \<Rightarrow> world" where
  "startScan_afterAnalysis res w =
     (let w1 = w\<lparr>scanResults := res, isScanning := False\<rparr>
      in if res \<noteq> None then w1\<lparr>tasks := tasks w1 @ [ShowTimer]\<rparr> else w1)"

definition showTimer_callback :: "world \<Rightarrow> world" where
  "showTimer_callback w = w\<lparr>showResults := True\<rparr>"

text \<open>
  The \<open>i\<close>-th pending continuation resumes, when it is of the kind the event names;
  otherwise nothing happens.
\<close>

definition resume :: "nat \<Rightarrow> task \<Rightarrow> (world \<Rightarrow> world) \<Rightarrow> world \<Rightarrow> world" where
  "resume i k cont w =
     (if i < length (tasks w) \<and> tasks w ! i = k
      then cont (w\<lparr>tasks := take i (tasks w) @ drop (Suc i) (tasks w)\<rparr>)
      else w)"

text \<open>
  \<^verbatim>\<open>
  const handleSaveScan = (results, imageFile) => {
    const reader = new FileReader();
    reader.readAsDataURL(imageFile);
    reader.onloadend = () => {
      const newScan = { results, image: reader.result as string, timestamp: new Date() };
      setSavedScans(prevScans => [newScan, ...prevScans]);
      alert('Scan data saved successfully!');
    };
    reader.onerror = (error) => {
      console.error('Error converting file to base64:', error);
      alert('Failed to save scan data.');
    };
  };
  \<close>
  The call starts a read and leaves a reader with two handlers behind.
\<close>

definition handleSaveScan :: "scan_results \<Rightarrow> File \<Rightarrow> world \<Rightarrow> world" where
  "handleSaveScan res imageFile w =
     w\<lparr>readers := readers w @ [(res, imageFile)],
       saveCalls := saveCalls w @ [(res, imageFile)]\<rparr>"

definition onloadend :: "scan_results \<Rightarrow> string option \<Rightarrow> nat \<Rightarrow> world \<Rightarrow> world" where
  "onloadend res reader_result now w =
     w\<lparr>savedScans := \<lparr>results = res, image_str = reader_result, timestamp = now\<rparr> # savedScans w,
       alerts := alerts w @ [''Scan data saved successfully!'']\<rparr>"

definition onerror :: "world \<Rightarrow> world" where
  "onerror w =
     w\<lparr>consoleErrors := consoleErrors w @ [''Error converting file to base64:''],
       alerts := alerts w @ [''Failed to save scan data.'']\<rparr>"

text \<open>
  The events of a \<^verbatim>\<open>FileReader\<close> (File API): a read that succeeds fires
  \<^verbatim>\<open>loadstart\<close>, \<^verbatim>\<open>progress\<close>, \<^verbatim>\<open>load\<close> and \<^verbatim>\<open>loadend\<close>, with the data URL in
  \<^verbatim>\<open>reader.result\<close>; a read that fails fires \<^verbatim>\<open>error\<close> and then \<^verbatim>\<open>loadend\<close>, with
  \<^verbatim>\<open>reader.result\<close> null. \<^verbatim>\<open>loadend\<close> ends every read, successful or not.
\<close>

datatype reader_event = Ev_loadstart | Ev_progress | Ev_load | Ev_error | Ev_loadend

datatype read_outcome = ReadOk string | ReadFailed

fun fileReader_events :: "read_outcome \<Rightarrow> reader_event list" where
  "fileReader_events (ReadOk s) = [Ev_loadstart, Ev_progress, Ev_load, Ev_loadend]"
| "fileReader_events ReadFailed = [Ev_error, Ev_loadend]"

fun fileReader_result :: "read_outcome \<Rightarrow> string option" where
  "fileReader_result (ReadOk s) = Some s"
| "fileReader_result ReadFailed = None"

text \<open>Only \<^verbatim>\<open>onloadend\<close> and \<^verbatim>\<open>onerror\<close> are set on the reader.\<close>

fun dispatch :: "scan_results \<Rightarrow> string option \<Rightarrow> nat \<Rightarrow> reader_event \<Rightarrow> world \<Rightarrow> world" where
  "dispatch res reader_result now Ev_loadend w = onloadend res reader_result now w"
| "dispatch res reader_result now Ev_error w = onerror w"
| "dispatch res reader_result now ev w = w"

definition readerFinished :: "nat \<Rightarrow> read_outcome \<Rightarrow> nat \<Rightarrow> world \<Rightarrow> world" where
  "readerFinished i outcome now w =
     (if i < length (readers w)
      then fold (dispatch (fst (readers w ! i)) (fileReader_result outcome) now)
             (fileReader_events outcome)
             (w\<lparr>readers := take i (readers w) @ drop (Suc i) (readers w)\<rparr>)
      else w)"

text \<open>
  \<^verbatim>\<open>
  const resetScan = () => {
    setIsScanning(false);
    setShowResults(false);
    setScanResults(null);
    handleFileChange(null);
    if (fileInputRef.current) fileInputRef.current.value = "";
  };
  \<close>
  The last line empties the file input of the page, which is no part of the state.
\<close>

definition resetScan :: "world \<Rightarrow> world" where
  "resetScan w =
     handleFileChange None (w\<lparr>isScanning := False, showResults := False, scanResults := None\<rparr>)"

text \<open>
  \<^verbatim>\<open>
  const handleSaveClick = () => {
    if (!scanResults || !uploadedFile || isDataSaved) return;
    onSaveScan(scanResults, uploadedFile);
    setIsDataSaved(true);
  };
  \<close>
  \<^verbatim>\<open>App\<close> passes \<^verbatim>\<open>handleSaveScan\<close> as \<^verbatim>\<open>onSaveScan\<close>.
\<close>

definition handleSaveClick :: "world \<Rightarrow> world" where
  "handleSaveClick w =
     (if scanResults w = None \<or> uploadedFile w = None \<or> isDataSaved w then w
      else (handleSaveScan (the (scanResults w)) (the (uploadedFile w)) w)\<lparr>isDataSaved := True\<rparr>)"

text \<open>
  \<^verbatim>\<open>
  useEffect(() => {
    return () => { if (filePreviewUrl) URL.revokeObjectURL(filePreviewUrl); };
  }, [filePreviewUrl]);
  \<close>
  After a render in which \<^verbatim>\<open>filePreviewUrl\<close> differs from the one of the render before,
  the cleanup of the old effect runs with the old value; at teardown the cleanup of the
  installed effect runs with the current one.
\<close>

definition effect_cleanup :: "url option \<Rightarrow> world \<Rightarrow> world" where
  "effect_cleanup prev w = (case prev of Some u \<Rightarrow> revokeObjectURL u w | None \<Rightarrow> w)"

definition render_effects :: "url option \<Rightarrow> world \<Rightarrow> world" where
  "render_effects prev w = (if filePreviewUrl w \<noteq> prev then effect_cleanup prev w else w)"

definition unmount :: "world \<Rightarrow> world" where
  "unmount w = effect_cleanup (filePreviewUrl w) w"

text \<open>
  \<^verbatim>\<open>
  const handleNavigate = (section: Section) => {
    if (section === currentSection) return;
    setCurrentSection(section);
  };
  \<close>
  The header, which every view shows, calls it with any of the four sections.
\<close>

definition handleNavigate :: "Section \<Rightarrow> world \<Rightarrow> world" where
  "handleNavigate section w =
     (if section = currentSection w then w else w\<lparr>currentSection := section\<rparr>)"

text \<open>
  \<^verbatim>\<open>renderSection\<close> returns the \<^verbatim>\<open>Scanning\<close> element for the scanning section only, so
  a render with another section removes the instance: the cleanup of its effect runs, its
  seven cells are dropped (the next instance starts from the initial values), and the
  continuations it has pending stay pending without a component.
\<close>

definition leave_scanning :: "world \<Rightarrow> world" where
  "leave_scanning w =
     (unmount w)\<lparr>isScanning := False, scanResults := None, showResults := False,
       uploadedFile := None, filePreviewUrl := None, isDragging := False,
       isDataSaved := False, tasks := [], orphans := orphans w @ tasks w\<rparr>"

text \<open>
  The continuations of \<^verbatim>\<open>startScan\<close> when the instance that started them is gone: the
  collaborator is called all the same, the setters do nothing, and the last timer is
  started all the same.
\<close>

definition stale_afterDelay :: "world \<Rightarrow> world" where
  "stale_afterDelay w =
     w\<lparr>analyzeCalls := Suc (analyzeCalls w), orphans := orphans w @ [AwaitAnalysis]\<rparr>"

definition stale_afterAnalysis :: "scan_results option \<Rightarrow> world \<Rightarrow> world" where
  "stale_afterAnalysis res w =
     (if res \<noteq> None then w\<lparr>orphans := orphans w @ [ShowTimer]\<rparr> else w)"

definition stale_showTimer :: "world \<Rightarrow> world" where
  "stale_showTimer w = w"

definition resume_orphan :: "nat \<Rightarrow> task \<Rightarrow> (world \<Rightarrow> world) \<Rightarrow> world \<Rightarrow> world" where
  "resume_orphan i k cont w =
     (if i < length (orphans w) \<and> orphans w ! i = k
      then cont (w\<lparr>orphans := take i (orphans w) @ drop (Suc i) (orphans w)\<rparr>)
      else w)"

text \<open>
  What can happen: the handlers of the scanning view, the navigation, and the completions
  the browser delivers, to the rendered instance or to one that is gone. Every handler
  reads the state of the latest render and is followed by a render.
\<close>

datatype event =
    DragOver
  | DragLeave
  | Drop "File list"
  | FileInput "File list"
  | StartClick
  | ResetClick
  | SaveClick
  | DelayElapsed nat
  | AnalysisResolved nat "scan_results option"
  | ShowTimerFired nat
  | ReaderFinished nat read_outcome nat
  | Navigate Section
  | StaleDelayElapsed nat
  | StaleAnalysisResolved nat "scan_results option"
  | StaleTimerFired nat

fun handle :: "event \<Rightarrow> world \<Rightarrow> world" where
  "handle DragOver w = w\<lparr>isDragging := True\<rparr>"
| "handle DragLeave w = w\<lparr>isDragging := False\<rparr>"
| "handle (Drop files) w = handleDrop files w"
| "handle (FileInput files) w = onFileInputChange files w"
| "handle StartClick w = startScan w"
| "handle ResetClick w = resetScan w"
| "handle SaveClick w = handleSaveClick w"
| "handle (DelayElapsed i) w = resume i AwaitDelay startScan_afterDelay w"
| "handle (AnalysisResolved i res) w = resume i AwaitAnalysis (startScan_afterAnalysis res) w"
| "handle (ShowTimerFired i) w = resume i ShowTimer showTimer_callback w"
| "handle (ReaderFinished i outcome now) w = readerFinished i outcome now w"
| "handle (Navigate section) w = handleNavigate section w"
| "handle (StaleDelayElapsed i) w = resume_orphan i AwaitDelay stale_afterDelay w"
| "handle (StaleAnalysisResolved i res) w = resume_orphan i AwaitAnalysis (stale_afterAnalysis res) w"
| "handle (StaleTimerFired i) w = resume_orphan i ShowTimer stale_showTimer w"

text \<open>
  The render after a handler: when it takes the scanning view away, the instance is
  removed; otherwise the effect of the view is updated.
\<close>

definition step :: "event \<Rightarrow> world \<Rightarrow> world" where
  "step e w =
     (let w' = handle e w
      in if currentSection w = Scanning \<and> currentSection w' \<noteq> Scanning
         then leave_scanning w'
         else render_effects (filePreviewUrl w) w')"

fun run :: "event list \<Rightarrow> world \<Rightarrow> world" where
  "run [] w = w"
| "run (e # es) w = run es (step e w)"

text \<open>
  The events the page can deliver in a state. The scanning view renders the drop zone, the
  file input, the start button (\<^verbatim>\<open>disabled={!uploadedFile || isScanning}\<close>) and a reset
  button while \<^verbatim>\<open>showResults\<close> is false, and the save button
  (\<^verbatim>\<open>disabled={isDataSaved}\<close>) and a reset button while it is true; a completion needs
  its pending continuation or reader; the navigation is always at hand. A run is feasible
  when each of its events can be delivered in the state it meets. \<open>step\<close> itself lets
  every handler run in every state, so what is proved of every run is proved of the
  feasible ones; the runs that refute a statement are shown to be feasible.
\<close>

fun enabled :: "event \<Rightarrow> world \<Rightarrow> bool" where
  "enabled DragOver w = (currentSection w = Scanning \<and> \<not> showResults w)"
| "enabled DragLeave w = (currentSection w = Scanning \<and> \<not> showResults w)"
| "enabled (Drop files) w = (currentSection w = Scanning \<and> \<not> showResults w)"
| "enabled (FileInput files) w = (currentSection w = Scanning \<and> \<not> showResults w)"
| "enabled StartClick w =
     (currentSection w = Scanning \<and> \<not> showResults w \<and> uploadedFile w \<noteq> None \<and> \<not> isScanning w)"
| "enabled ResetClick w = (currentSection w = Scanning)"
| "enabled SaveClick w = (currentSection w = Scanning \<and> showResults w \<and> \<not> isDataSaved w)"
| "enabled (DelayElapsed i) w = (i < length (tasks w) \<and> tasks w ! i = AwaitDelay)"
| "enabled (AnalysisResolved i res) w = (i < length (tasks w) \<and> tasks w ! i = AwaitAnalysis)"
| "enabled (ShowTimerFired i) w = (i < length (tasks w) \<and> tasks w ! i = ShowTimer)"
| "enabled (ReaderFinished i outcome now) w = (i < length (readers w))"
| "enabled (Navigate section) w = True"
| "enabled (StaleDelayElapsed i) w = (i < length (orphans w) \<and> orphans w ! i = AwaitDelay)"
| "enabled (StaleAnalysisResolved i res) w =
     (i < length (orphans w) \<and> orphans w ! i = AwaitAnalysis)"
| "enabled (StaleTimerFired i) w = (i < length (orphans w) \<and> orphans w ! i = ShowTimer)"

fun feasible :: "event list \<Rightarrow> world \<Rightarrow> bool" where
  "feasible [] w = True"
| "feasible (e # es) w = (enabled e w \<and> feasible es (step e w))"

text \<open>
  The analyses in flight: the calls of \<^verbatim>\<open>startScan\<close> that have not yet finished, of the
  rendered instance and of those that are gone.
\<close>

definition inFlight :: "world \<Rightarrow> nat" where
  "inFlight w = length (filter (\<lambda>t. t \<noteq> ShowTimer) (tasks w @ orphans w))"

text \<open>
  The targets of the four counters (lines 431-434):
  \<^verbatim>\<open>useAnimatedCounter(showResults ? scanResults?.plankton?.count ?? 0 : 0)\<close>
\<close>

definition counterTarget :: "(scan_results \<Rightarrow> organism_result) \<Rightarrow> world \<Rightarrow> real" where
  "counterTarget category w =
     (if showResults w
      then (case scanResults w of None \<Rightarrow> 0 | Some r \<Rightarrow> of_int (count (category r)))
      else 0)"


section \<open>Notions for the statements\<close>

text \<open>
  The reals that are doubles, and two angles that differ by a whole number of turns, a turn
  being what the code adds and subtracts: the double \<^verbatim>\<open>2 * Math.PI\<close>.
\<close>

definition is_double :: "real \<Rightarrow> bool" where
  "is_double v = (round_double v = v)"

definition congruent_two_pi :: "real \<Rightarrow> real \<Rightarrow> bool" where
  "congruent_two_pi r a = (\<exists>k::int. r = a + of_int k * (Math_PI * 2))"

text \<open>A nullable value as the list of what it holds.\<close>

definition list_of_option :: "'a option \<Rightarrow> 'a list" where
  "list_of_option v = (case v of None \<Rightarrow> [] | Some u \<Rightarrow> [u])"

text \<open>
  The object URLs of a state that is reached from the first render: the store of the
  browser holds the URL of \<^verbatim>\<open>filePreviewUrl\<close> and nothing else, and that URL was made
  by an earlier call.
\<close>

definition url_inv :: "world \<Rightarrow> bool" where
  "url_inv w = (blobStore w = list_of_option (filePreviewUrl w)
     \<and> (\<forall>u. filePreviewUrl w = Some u \<longrightarrow> u < nextBlob w))"

text \<open>
  Replaying the logged calls on a store: what one call does, and the largest number of
  URLs that are live at any moment of the log.
\<close>

fun apply_url_op :: "url_op \<Rightarrow> url list \<Rightarrow> url list" where
  "apply_url_op (CreateObjectURL u) s = s @ [u]"
| "apply_url_op (RevokeObjectURL u) s = removeAll u s"

fun peak_live :: "url_op list \<Rightarrow> url list \<Rightarrow> nat" where
  "peak_live [] s = length s"
| "peak_live (c # cs) s = max (length s) (peak_live cs (apply_url_op c s))"

definition log_inv :: "world \<Rightarrow> bool" where
  "log_inv w = (fold apply_url_op (urlCalls w) [] = blobStore w \<and> peak_live (urlCalls w) [] \<le> 1)"

text \<open>
  The URLs that logged calls, replayed on a store, take out of it and put into it, in the
  order in which that happens: a call of \<^verbatim>\<open>revokeObjectURL\<close> releases a URL when the
  store holds it, and does nothing otherwise.
\<close>

fun released :: "url_op list \<Rightarrow> url list \<Rightarrow> url list" where
  "released [] s = []"
| "released (c # cs) s =
     (case c of
        RevokeObjectURL u \<Rightarrow> (if u \<in> set s then [u] else [])
      | CreateObjectURL u \<Rightarrow> [])
     @ released cs (apply_url_op c s)"

fun created :: "url_op list \<Rightarrow> url list" where
  "created [] = []"
| "created (CreateObjectURL u # cs) = u # created cs"
| "created (RevokeObjectURL u # cs) = created cs"

text \<open>
  The stores that a log passes through when it is replayed, the first one included.
\<close>

fun store_trace :: "url_op list \<Rightarrow> url list \<Rightarrow> url list list" where
  "store_trace [] s = [s]"
| "store_trace (c # cs) s = s # store_trace cs (apply_url_op c s)"

text \<open>
  The two events that clear or drop the flag \<^verbatim>\<open>isScanning\<close> without touching the
  pending call: \<^verbatim>\<open>resetScan\<close>, and a navigation that takes the scanning view away. A
  run in which neither happens while the flag is set, and what holds of the analyses in
  flight along such a run.
\<close>

fun abandons :: "event \<Rightarrow> world \<Rightarrow> bool" where
  "abandons ResetClick w = True"
| "abandons (Navigate section) w = (currentSection w = Scanning \<and> section \<noteq> Scanning)"
| "abandons DragOver w = False"
| "abandons DragLeave w = False"
| "abandons (Drop files) w = False"
| "abandons (FileInput files) w = False"
| "abandons StartClick w = False"
| "abandons SaveClick w = False"
| "abandons (DelayElapsed i) w = False"
| "abandons (AnalysisResolved i res) w = False"
| "abandons (ShowTimerFired i) w = False"
| "abandons (ReaderFinished i outcome now) w = False"
| "abandons (StaleDelayElapsed i) w = False"
| "abandons (StaleAnalysisResolved i res) w = False"
| "abandons (StaleTimerFired i) w = False"

fun never_abandoned :: "event list \<Rightarrow> world \<Rightarrow> bool" where
  "never_abandoned [] w = True"
| "never_abandoned (e # es) w =
     (\<not> (isScanning w \<and> abandons e w) \<and> never_abandoned es (step e w))"

definition flight_inv :: "world \<Rightarrow> bool" where
  "flight_inv w =
     (length (filter (\<lambda>t. t \<noteq> ShowTimer) (tasks w)) = (if isScanning w then 1 else 0)
      \<and> filter (\<lambda>t. t \<noteq> ShowTimer) (orphans w) = [])"

text \<open>The files and the results of the scenarios of the specification.\<close>

definition sample_jpg :: File where
  "sample_jpg = \<lparr>name = ''sample.jpg'', media_type = ''image/jpeg''\<rparr>"

definition notes_txt :: File where
  "notes_txt = \<lparr>name = ''notes.txt'', media_type = ''text/plain''\<rparr>"

definition sample_results :: scan_results where
  "sample_results =
     \<lparr>plankton = \<lparr>count = 1200, accuracy = 0.97\<rparr>,
      algae = \<lparr>count = 340, accuracy = 0.91\<rparr>,
      bacteria = \<lparr>count = 58, accuracy = 0.88\<rparr>,
      protozoa = \<lparr>count = 12, accuracy = 0.95\<rparr>\<rparr>"

text \<open>
  Results of a second analysis of the same sample, and the run in which they arrive while
  the first ones are shown: the start button is pressed again in the 100 ms between the
  arrival of the first results and the timer that shows them.
\<close>

definition second_results :: scan_results where
  "second_results =
     \<lparr>plankton = \<lparr>count = 7, accuracy = 0.9\<rparr>,
      algae = \<lparr>count = 340, accuracy = 0.91\<rparr>,
      bacteria = \<lparr>count = 58, accuracy = 0.88\<rparr>,
      protozoa = \<lparr>count = 12, accuracy = 0.95\<rparr>\<rparr>"

definition rescan_while_shown :: "event list" where
  "rescan_while_shown =
     [FileInput [sample_jpg], StartClick, DelayElapsed 0,
      AnalysisResolved 0 (Some sample_results), StartClick, ShowTimerFired 0, DelayElapsed 0]"

text \<open>
  Two states of the first scenario: the results are shown and not yet saved; and, before
  that, the analysis collaborator has been called and has not answered.
\<close>

definition results_shown :: world where
  "results_shown =
     initial_world\<lparr>scanResults := Some sample_results, showResults := True,
       uploadedFile := Some sample_jpg, filePreviewUrl := Some 0, blobStore := [0],
       nextBlob := 1, urlCalls := [CreateObjectURL 0], analyzeCalls := 1\<rparr>"

definition analyzing :: world where
  "analyzing =
     initial_world\<lparr>isScanning := True, uploadedFile := Some sample_jpg,
       filePreviewUrl := Some 0, blobStore := [0], nextBlob := 1,
       urlCalls := [CreateObjectURL 0], tasks := [AwaitAnalysis], analyzeCalls := 1\<rparr>"


section \<open>Rounding to doubles\<close>

text \<open>
  What rounding keeps: order against a double, and every value that is a whole multiple of
  the unit of its binade or of a finer one.
\<close>

lemma round_even_of_int [simp]: "round_even (of_int k) = k"
  by (simp add: round_even_def)

lemma round_even_bounds: "\<lfloor>v\<rfloor> \<le> round_even v \<and> round_even v \<le> \<lceil>v\<rceil>"
proof -
  have "v - of_int \<lfloor>v\<rfloor> > 0 \<Longrightarrow> \<lceil>v\<rceil> = \<lfloor>v\<rfloor> + 1"
    by (simp add: ceiling_altdef)
  then show ?thesis
    by (auto simp: round_even_def Let_def ceiling_altdef)
qed

lemma round_even_le: "v \<le> of_int k \<Longrightarrow> round_even v \<le> k"
  using round_even_bounds [of v] by (meson ceiling_le order_trans)

lemma round_even_ge: "of_int k \<le> v \<Longrightarrow> k \<le> round_even v"
  using round_even_bounds [of v] by (meson le_floor_iff order_trans)

lemma round_even_error: "\<bar>of_int (round_even v) - v\<bar> \<le> 1 / 2"
  by (auto simp: round_even_def Let_def)

lemma round_even_minus: "round_even (- v) = - round_even v"
proof (cases "v = of_int \<lfloor>v\<rfloor>")
  case True
  then obtain k :: int where "v = of_int k" ..
  then have "- v = of_int (- k)" by simp
  then show ?thesis
    unfolding \<open>v = of_int k\<close> by (metis round_even_of_int of_int_minus)
next
  case False
  then have fl: "\<lfloor>- v\<rfloor> = - \<lfloor>v\<rfloor> - 1"
    by (metis ceiling_altdef ceiling_def add_uminus_conv_diff minus_add_distrib minus_minus)
  have lt: "of_int \<lfloor>v\<rfloor> < v"
    using False by (metis less_eq_real_def of_int_floor_le)
  show ?thesis
    using lt by (auto simp: round_even_def Let_def fl) 
qed

lemma ulp_exponent_minus [simp]: "ulp_exponent (- v) = ulp_exponent v"
  by (simp add: ulp_exponent_def)

lemma round_double_minus: "round_double (- v) = - round_double v"
  by (simp add: round_double_def round_even_minus)

lemma round_double_zero [simp]: "round_double 0 = 0"
  by (simp add: round_double_def)

lemma two_powr_int_diff:
  assumes "e \<le> g"
  shows "(2::real) powr of_int g / 2 powr of_int e = of_int (2 ^ nat (g - e))"
proof -
  have "(2::real) powr of_int g / 2 powr of_int e = 2 powr (of_int g - of_int e)"
    by (simp add: powr_diff)
  also have "\<dots> = 2 powr of_nat (nat (g - e))"
    using assms by simp
  also have "\<dots> = 2 ^ nat (g - e)"
    by (simp only: powr_realpow zero_less_numeral)
  finally show ?thesis by simp
qed

lemma ulp_exponent_le:
  assumes "v \<noteq> 0" and "\<bar>v\<bar> < 2 powr of_int (g + 53)" and "- 1074 \<le> g"
  shows "ulp_exponent v \<le> g"
proof -
  have "log 2 \<bar>v\<bar> < of_int (g + 53)"
    using assms(1,2) by (simp add: log_less_iff)
  then have "\<lfloor>log 2 \<bar>v\<bar>\<rfloor> < g + 53"
    by (simp add: floor_less_iff)
  then show ?thesis
    using assms(3) by (simp add: ulp_exponent_def)
qed

lemma round_double_exact:
  assumes "v = of_int k * 2 powr of_int g" and "\<bar>v\<bar> < 2 powr of_int (g + 53)" and "- 1074 \<le> g"
  shows "round_double v = v"
proof (cases "v = 0")
  case True
  then show ?thesis by simp
next
  case False
  define e where "e = ulp_exponent v"
  have le: "e \<le> g"
    unfolding e_def using False assms(2,3) by (rule ulp_exponent_le)
  have "v / 2 powr of_int e = of_int k * (2 powr of_int g / 2 powr of_int e)"
    by (simp add: assms(1))
  also have "\<dots> = of_int (k * 2 ^ nat (g - e))"
    by (simp add: two_powr_int_diff [OF le])
  finally have "round_even (v / 2 powr of_int e) = k * 2 ^ nat (g - e)"
    by (simp only: round_even_of_int)
  then have "round_double v = of_int (k * 2 ^ nat (g - e)) * 2 powr of_int e"
    using False by (simp add: round_double_def e_def)
  also have "\<dots> = of_int k * ((2 powr of_int g / 2 powr of_int e) * 2 powr of_int e)"
    by (simp add: two_powr_int_diff [OF le])
  also have "\<dots> = v"
    by (simp add: assms(1))
  finally show ?thesis .
qed

lemma round_double_of_int:
  assumes "\<bar>k\<bar> < 2 ^ 53"
  shows "round_double (of_int k) = of_int k"
proof (rule round_double_exact [where k = k and g = 0])
  show "(of_int k :: real) = of_int k * 2 powr of_int 0" by simp
  have "\<bar>of_int k :: real\<bar> < 2 ^ 53"
    using assms by (metis of_int_abs of_int_less_numeral_power_cancel_iff)
  then show "\<bar>of_int k :: real\<bar> < 2 powr of_int (0 + 53)"
    by (simp add: powr_realpow [symmetric] del: )
qed simp

lemma ulp_exponent_mono:
  assumes "v \<noteq> 0" and "\<bar>v\<bar> \<le> \<bar>r\<bar>"
  shows "ulp_exponent v \<le> ulp_exponent r"
proof -
  have "log 2 \<bar>v\<bar> \<le> log 2 \<bar>r\<bar>"
    using assms by (simp add: log_le_cancel_iff)
  then have "\<lfloor>log 2 \<bar>v\<bar>\<rfloor> \<le> \<lfloor>log 2 \<bar>r\<bar>\<rfloor>"
    by (rule floor_mono)
  then show ?thesis
    by (simp add: ulp_exponent_def)
qed

lemma round_double_nonpos: "v \<le> 0 \<Longrightarrow> round_double v \<le> 0"
proof (cases "v = 0")
  case False
  assume "v \<le> 0"
  then have "v / 2 powr of_int (ulp_exponent v) \<le> of_int 0"
    by (simp add: divide_nonpos_pos)
  then have "round_even (v / 2 powr of_int (ulp_exponent v)) \<le> 0"
    by (rule round_even_le)
  then show ?thesis
    using False by (simp add: round_double_def mult_le_0_iff)
qed simp

lemma round_double_le_grid:
  assumes "v \<noteq> 0" and "r = of_int k * 2 powr of_int (ulp_exponent v)" and "v \<le> r"
  shows "round_double v \<le> r"
proof -
  define e where "e = ulp_exponent v"
  have "v / 2 powr of_int e \<le> r / 2 powr of_int e"
    using assms(3) by (simp add: divide_right_mono)
  also have "r / 2 powr of_int e = of_int k"
    by (simp add: assms(2) e_def)
  finally have "round_even (v / 2 powr of_int e) \<le> k"
    by (rule round_even_le)
  then have "real_of_int (round_even (v / 2 powr of_int e)) * 2 powr of_int e
      \<le> real_of_int k * 2 powr of_int e"
    by (simp add: mult_right_mono)
  then show ?thesis
    using assms(1,2) by (simp add: round_double_def e_def)
qed

lemma round_double_le:
  assumes dbl: "is_double r" and le: "v \<le> r"
  shows "round_double v \<le> r"
proof (cases "v = 0 \<or> (v < 0 \<and> 0 \<le> r)")
  case True
  then show ?thesis
    using le round_double_nonpos [of v] by auto
next
  case False
  then have v0: "v \<noteq> 0" and r0: "r \<noteq> 0" and same: "(0 < v \<and> 0 < r) \<or> (v < 0 \<and> r < 0)"
    using le by auto
  define e where "e = ulp_exponent v"
  define er where "er = ulp_exponent r"
  define kr where "kr = round_even (r / 2 powr of_int er)"
  have r: "r = of_int kr * 2 powr of_int er"
    using dbl r0 by (simp add: is_double_def round_double_def kr_def er_def)
  show ?thesis
  proof (cases "e \<le> er")
    case True
    have "r = of_int kr * ((2 powr of_int er / 2 powr of_int e) * 2 powr of_int e)"
      using r by simp
    also have "\<dots> = of_int (kr * 2 ^ nat (er - e)) * 2 powr of_int e"
      by (simp add: two_powr_int_diff [OF True])
    finally have "r = of_int (kr * 2 ^ nat (er - e)) * 2 powr of_int (ulp_exponent v)"
      by (simp add: e_def)
    with v0 show ?thesis
      using le by (rule round_double_le_grid)
  next
    case False
    then have gt: "er < e" by simp
    have "\<not> \<bar>v\<bar> \<le> \<bar>r\<bar>"
      using ulp_exponent_mono [OF v0, of r] gt by (auto simp: e_def er_def)
    with same le have neg: "v < 0" "r < 0"
      by auto
    have e_eq: "e = \<lfloor>log 2 \<bar>v\<bar>\<rfloor> - 52"
      using gt by (auto simp: e_def er_def ulp_exponent_def max_def split: if_splits)
    have "of_int (e + 52) \<le> log 2 \<bar>v\<bar>"
      unfolding e_eq by simp
    then have big: "2 powr of_int (e + 52) \<le> \<bar>v\<bar>"
      using v0 by (simp add: le_log_iff)
    define b where "b = (2::real) powr of_int (e + 52)"
    have pw: "b = of_int (2 ^ 52) * 2 powr of_int (ulp_exponent v)"
      by (simp add: b_def e_def powr_add)
    have "- b = of_int (- (2 ^ 52)) * 2 powr of_int (ulp_exponent v)"
      by (simp add: pw)
    moreover have "v \<le> - b"
      using big neg(1) by (simp add: b_def)
    ultimately have up: "round_double v \<le> - b"
      using v0 by (intro round_double_le_grid [where k = "- (2 ^ 52)"])
    have "\<lfloor>log 2 \<bar>r\<bar>\<rfloor> - 52 \<le> er"
      by (simp add: er_def ulp_exponent_def)
    then have "\<lfloor>log 2 \<bar>r\<bar>\<rfloor> < e + 52"
      using gt by simp
    then have "log 2 \<bar>r\<bar> < of_int (e + 52)"
      by (simp add: floor_less_iff)
    then have "\<bar>r\<bar> < b"
      using r0 by (simp add: log_less_iff b_def)
    then have "- b < r"
      using neg(2) by simp
    with up show ?thesis by simp
  qed
qed

lemma is_double_minus: "is_double (- v) = is_double v"
  by (simp add: is_double_def round_double_minus)

lemma round_double_ge:
  assumes "is_double r" and "r \<le> v"
  shows "r \<le> round_double v"
proof -
  have "round_double (- v) \<le> - r"
    using assms by (intro round_double_le) (simp_all add: is_double_minus)
  then show ?thesis
    by (simp add: round_double_minus)
qed

lemma is_double_of_int: "\<bar>k\<bar> < 2 ^ 53 \<Longrightarrow> is_double (of_int k)"
  by (simp add: is_double_def round_double_of_int)

lemma two_powr_neg: "(2::real) powr of_int (- int n) = 1 / 2 ^ n"
  by (simp add: powr_minus powr_realpow inverse_eq_divide)

lemma Math_PI_bounds: "3 < Math_PI" "Math_PI < 4"
  by (simp_all add: Math_PI_def)

lemma is_double_Math_PI: "is_double Math_PI"
  unfolding is_double_def
proof (rule round_double_exact [where k = 884279719003555 and g = "- 48"])
  show "Math_PI = real_of_int 884279719003555 * 2 powr real_of_int (- 48)"
    using two_powr_neg [of 48] by (simp add: Math_PI_def)
  have "(2::real) powr real_of_int (- 48 + 53) = 2 ^ 5"
    by (simp add: powr_realpow [symmetric])
  then show "\<bar>Math_PI\<bar> < 2 powr real_of_int (- 48 + 53)"
    using Math_PI_bounds by simp
qed simp

lemma two_pi_exact: "round_double (Math_PI * 2) = Math_PI * 2"
proof (rule round_double_exact [where k = 884279719003555 and g = "- 47"])
  show "Math_PI * 2 = real_of_int 884279719003555 * 2 powr real_of_int (- 47)"
    using two_powr_neg [of 47] by (simp add: Math_PI_def)
  have "(2::real) powr real_of_int (- 47 + 53) = 2 ^ 6"
    by (simp add: powr_realpow [symmetric])
  then show "\<bar>Math_PI * 2\<bar> < 2 powr real_of_int (- 47 + 53)"
    using Math_PI_bounds by simp
qed simp

lemma on_finer_grid:
  fixes v :: real
  assumes "v = of_int k * 2 powr of_int g'" and "g \<le> g'"
  shows "\<exists>k'. v = of_int k' * 2 powr of_int g"
proof -
  have "v = of_int k * ((2 powr of_int g' / 2 powr of_int g) * 2 powr of_int g)"
    using assms(1) by simp
  also have "\<dots> = of_int (k * 2 ^ nat (g' - g)) * 2 powr of_int g"
    by (simp add: two_powr_int_diff [OF assms(2)])
  finally show ?thesis ..
qed

lemma double_on_grid:
  assumes "is_double a" and "g \<le> ulp_exponent a"
  shows "\<exists>k. a = of_int k * 2 powr of_int g"
proof (cases "a = 0")
  case True
  then have "a = of_int 0 * 2 powr of_int g" by simp
  then show ?thesis ..
next
  case False
  with assms(1) have "a = of_int (round_even (a / 2 powr of_int (ulp_exponent a)))
      * 2 powr of_int (ulp_exponent a)"
    by (simp add: is_double_def round_double_def)
  then show ?thesis
    using assms(2) by (rule on_finer_grid)
qed

lemma round_double_diff_exact:
  assumes "a = of_int ka * 2 powr of_int g" and "b = of_int kb * 2 powr of_int g"
    and "\<bar>a - b\<bar> < 2 powr of_int (g + 53)" and "- 1074 \<le> g"
  shows "round_double (a - b) = a - b"
proof (rule round_double_exact [where k = "ka - kb" and g = g])
  show "a - b = real_of_int (ka - kb) * 2 powr real_of_int g"
    by (simp add: assms(1,2) algebra_simps)
qed (use assms in simp_all)

lemma two_pi_on_grid:
  assumes "g \<le> - 47"
  shows "\<exists>k. Math_PI * 2 = of_int k * 2 powr of_int g"
proof -
  have "Math_PI * 2 = real_of_int 884279719003555 * 2 powr real_of_int (- 47)"
    using two_powr_neg [of 47] by (simp add: Math_PI_def)
  then show ?thesis
    using assms by (rule on_finer_grid)
qed

lemma ulp_exponent_above_two:
  assumes "2 \<le> \<bar>a\<bar>"
  shows "- 51 \<le> ulp_exponent a"
proof -
  have "log 2 2 \<le> log 2 \<bar>a\<bar>"
    using assms by (simp add: log_le_cancel_iff del: log_eq_one)
  then have "1 \<le> \<lfloor>log 2 \<bar>a\<bar>\<rfloor>"
    by (simp add: le_floor_iff)
  then show ?thesis
    by (simp add: ulp_exponent_def)
qed

lemma below_next_binade:
  assumes "a \<noteq> 0" and "- 1074 < ulp_exponent a"
  shows "\<bar>a\<bar> < 2 powr of_int (ulp_exponent a + 53)"
proof -
  have e: "ulp_exponent a = \<lfloor>log 2 \<bar>a\<bar>\<rfloor> - 52"
    using assms(2) by (auto simp: ulp_exponent_def max_def split: if_splits)
  have "of_int (ulp_exponent a + 53) = of_int \<lfloor>log 2 \<bar>a\<bar>\<rfloor> + (1::real)"
    by (simp add: e)
  moreover have "log 2 \<bar>a\<bar> < of_int \<lfloor>log 2 \<bar>a\<bar>\<rfloor> + 1"
    using floor_correct [of "log 2 \<bar>a\<bar>"] by simp
  ultimately have "log 2 \<bar>a\<bar> < of_int (ulp_exponent a + 53)"
    by (simp only:)
  then show ?thesis
    using assms(1) by (simp add: log_less_iff)
qed

lemma subtract_two_pi_exact:
  assumes dbl: "is_double a" and lo: "Math_PI < a" and hi: "a \<le> 64"
  shows "round_double (a - Math_PI * 2) = a - Math_PI * 2"
proof -
  define g where "g = min (ulp_exponent a) (- 47)"
  have a2: "2 \<le> \<bar>a\<bar>" and a0: "a \<noteq> 0"
    using lo Math_PI_bounds by simp_all
  have e51: "- 51 \<le> ulp_exponent a"
    using a2 by (rule ulp_exponent_above_two)
  obtain ka where ka: "a = of_int ka * 2 powr of_int g"
    using double_on_grid [OF dbl, of g] by (auto simp: g_def)
  obtain kb where kb: "Math_PI * 2 = of_int kb * 2 powr of_int g"
    using two_pi_on_grid [of g] by (auto simp: g_def)
  have small: "\<bar>a - Math_PI * 2\<bar> < 2 powr of_int (g + 53)"
  proof (cases "ulp_exponent a \<le> - 47")
    case True
    then have g: "g = ulp_exponent a" by (simp add: g_def)
    have "\<bar>a\<bar> < 2 powr of_int (ulp_exponent a + 53)"
      using a0 e51 by (intro below_next_binade) simp_all
    moreover have "\<bar>a - Math_PI * 2\<bar> < \<bar>a\<bar>"
      using lo Math_PI_bounds by simp
    ultimately show ?thesis
      by (simp add: g)
  next
    case False
    then have g: "g = - 47" by (simp add: g_def)
    have "(2::real) powr of_int (- 47 + 53) = 2 ^ 6"
      by (simp add: powr_realpow [symmetric])
    moreover have "\<bar>a - Math_PI * 2\<bar> < 64"
      using lo hi Math_PI_bounds by simp
    ultimately show ?thesis
      by (simp add: g)
  qed
  have "- 1074 \<le> g"
    using e51 by (simp add: g_def)
  with ka kb small show ?thesis
    by (rule round_double_diff_exact)
qed

lemma add_two_pi_exact:
  assumes dbl: "is_double a" and hi: "a < - Math_PI" and lo: "- 64 \<le> a"
  shows "round_double (a + Math_PI * 2) = a + Math_PI * 2"
proof -
  have "round_double (- a - Math_PI * 2) = - a - Math_PI * 2"
    using assms by (intro subtract_two_pi_exact) (simp_all add: is_double_minus)
  then have "round_double (- (a + Math_PI * 2)) = - (a + Math_PI * 2)"
    by (simp add: algebra_simps)
  then show ?thesis
    by (simp only: round_double_minus neg_equal_iff_equal)
qed

text \<open>
  The value of a rounding, from the binade of the argument: between \<^verbatim>\<open>2 ** 52\<close> and
  \<^verbatim>\<open>2 ** 53\<close> units of size \<^verbatim>\<open>1 / 2 ** n\<close>, the argument is rounded to a whole number of units.
\<close>

lemma round_double_at:
  assumes lo: "2 powr of_int e \<le> \<bar>v\<bar>" and hi: "\<bar>v\<bar> < 2 powr of_int (e + 1)" and e: "- 1022 \<le> e"
  shows "round_double v = of_int (round_even (v / 2 powr of_int (e - 52))) * 2 powr of_int (e - 52)"
proof -
  have pos: "0 < \<bar>v\<bar>"
    using lo by (smt (verit) powr_gt_zero)
  have "2 powr of_int e \<le> \<bar>v\<bar> \<and> \<bar>v\<bar> < 2 powr (of_int e + 1)"
    using lo hi by simp
  then have "\<lfloor>log 2 \<bar>v\<bar>\<rfloor> = e"
    using pos by (subst floor_log_eq_powr_iff) simp_all
  then have "ulp_exponent v = e - 52"
    using e by (simp add: ulp_exponent_def)
  moreover have "v \<noteq> 0"
    using pos by simp
  ultimately show ?thesis
    by (simp add: round_double_def)
qed

lemma round_double_scaled:
  assumes lo: "2 ^ 52 \<le> \<bar>v\<bar> * 2 ^ n" and hi: "\<bar>v\<bar> * 2 ^ n < 2 ^ 53" and n: "n \<le> 1074"
    and k: "round_even (v * 2 ^ n) = k"
  shows "round_double v = of_int k / 2 ^ n"
proof -
  define e where "e = 52 - int n"
  have pw: "(2::real) powr of_int (e - 52) = 1 / 2 ^ n"
    using two_powr_neg [of n] by (simp add: e_def)
  have pe: "(2::real) powr of_int e = 2 ^ 52 / 2 ^ n"
  proof -
    have "(2::real) powr of_int e = 2 powr (52 - real n)"
      by (simp add: e_def)
    also have "\<dots> = 2 powr 52 / 2 powr real n"
      by (rule powr_diff)
    also have "\<dots> = 2 ^ 52 / 2 ^ n"
      by (simp add: powr_realpow)
    finally show ?thesis .
  qed
  have pe1: "(2::real) powr of_int (e + 1) = 2 ^ 53 / 2 ^ n"
  proof -
    have "(2::real) powr of_int (e + 1) = 2 powr (53 - real n)"
      by (simp add: e_def)
    also have "\<dots> = 2 powr 53 / 2 powr real n"
      by (rule powr_diff)
    also have "\<dots> = 2 ^ 53 / 2 ^ n"
      by (simp add: powr_realpow)
    finally show ?thesis .
  qed
  have a: "2 powr of_int e \<le> \<bar>v\<bar>"
    unfolding pe using lo by (simp add: field_simps)
  have b: "\<bar>v\<bar> < 2 powr of_int (e + 1)"
    unfolding pe1 using hi by (simp add: field_simps)
  have c: "- 1022 \<le> e"
    using n by (simp add: e_def)
  have "round_double v = of_int (round_even (v / 2 powr of_int (e - 52))) * 2 powr of_int (e - 52)"
    using a b c by (rule round_double_at)
  also have "v / 2 powr of_int (e - 52) = v * 2 ^ n"
    unfolding pw by simp
  finally show ?thesis
    unfolding pw k by simp
qed


section \<open>Normalising an angle\<close>

lemma normalizeAngle_down_stop: "a \<le> Math_PI \<Longrightarrow> normalizeAngle_down a = Some a"
  by (subst normalizeAngle_down.simps) simp

lemma normalizeAngle_down_step:
  "Math_PI < a \<Longrightarrow> normalizeAngle_down a = normalizeAngle_down (round_double (a - Math_PI * 2))"
  by (subst normalizeAngle_down.simps) (simp add: two_pi_exact)

lemma normalizeAngle_up_stop: "- Math_PI \<le> a \<Longrightarrow> normalizeAngle_up a = Some a"
  by (subst normalizeAngle_up.simps) simp

lemma normalizeAngle_up_step:
  "a < - Math_PI \<Longrightarrow> normalizeAngle_up a = normalizeAngle_up (round_double (a + Math_PI * 2))"
  by (subst normalizeAngle_up.simps) (simp add: two_pi_exact)

lemma ten17_stuck: "round_double (100000000000000000 - Math_PI * 2) = 100000000000000000"
proof -
  define v :: real where "v = 100000000000000000 - Math_PI * 2"
  have rng: "2 ^ 56 \<le> v" "v < 2 ^ 57"
    using Math_PI_bounds by (simp_all add: v_def)
  have "\<lfloor>log 2 \<bar>v\<bar>\<rfloor> = 56"
  proof -
    have "2 powr of_int 56 \<le> \<bar>v\<bar> \<and> \<bar>v\<bar> < 2 powr (of_int 56 + 1)"
      using rng by (simp add: powr_realpow [symmetric])
    moreover have "0 < \<bar>v\<bar>" using rng by simp
    ultimately show ?thesis
      by (subst floor_log_eq_powr_iff) simp_all
  qed
  then have e: "ulp_exponent v = 4"
    by (simp add: ulp_exponent_def)
  have p: "(2::real) powr of_int 4 = 16"
    by (simp add: powr_realpow [symmetric])
  have fl: "\<lfloor>v / 16\<rfloor> = 6249999999999999"
    using Math_PI_bounds by (simp add: v_def floor_eq_iff)
  have "round_even (v / 16) = 6250000000000000"
    using Math_PI_bounds by (simp add: round_even_def Let_def fl) (simp add: v_def)
  moreover have "v \<noteq> 0" using rng by simp
  ultimately have "round_double v = 100000000000000000"
    by (simp add: round_double_def e p)
  then show ?thesis
    unfolding v_def .
qed

lemma normalizeAngle_down_not_from_stuck:
  assumes "normalizeAngle_down a = Some b"
  shows "a \<noteq> 100000000000000000"
proof (rule normalizeAngle_down.raw_induct
    [where P = "\<lambda>a b. a \<noteq> 100000000000000000", OF _ assms])
  fix f and a b :: real
  assume IH: "\<And>x y. f x = Some y \<Longrightarrow> x \<noteq> 100000000000000000"
    and eq: "(if Math_PI < a then f (round_double (a - round_double (Math_PI * 2))) else Some a) = Some b"
  show "a \<noteq> 100000000000000000"
  proof
    assume a: "a = 100000000000000000"
    have "Math_PI < a"
      using Math_PI_bounds a by simp
    with eq have "f (round_double (a - Math_PI * 2)) = Some b"
      by (simp add: two_pi_exact)
    then have "f 100000000000000000 = Some b"
      unfolding a ten17_stuck .
    from IH [OF this] show False by simp
  qed
qed

lemma normalizeAngle_stuck: "normalizeAngle 100000000000000000 = None"
proof -
  have "normalizeAngle_down 100000000000000000 = None"
    using normalizeAngle_down_not_from_stuck [of 100000000000000000]
    by (cases "normalizeAngle_down 100000000000000000") auto
  then show ?thesis
    by (simp add: normalizeAngle_def)
qed

lemma normalizeAngle_down_le:
  assumes "normalizeAngle_down a = Some b"
  shows "b \<le> Math_PI"
proof (rule normalizeAngle_down.raw_induct [where P = "\<lambda>a b. b \<le> Math_PI", OF _ assms])
  fix f and a b :: real
  assume IH: "\<And>x y. f x = Some y \<Longrightarrow> y \<le> Math_PI"
    and eq: "(if Math_PI < a then f (round_double (a - round_double (Math_PI * 2))) else Some a) = Some b"
  show "b \<le> Math_PI"
    using IH eq by (cases "Math_PI < a") auto
qed

lemma normalizeAngle_up_range:
  assumes "normalizeAngle_up a = Some b"
  shows "- Math_PI \<le> b \<and> (a \<le> Math_PI \<longrightarrow> b \<le> Math_PI)"
proof (rule normalizeAngle_up.raw_induct
    [where P = "\<lambda>a b. - Math_PI \<le> b \<and> (a \<le> Math_PI \<longrightarrow> b \<le> Math_PI)", OF _ assms])
  fix f and a b :: real
  assume IH: "\<And>x y. f x = Some y \<Longrightarrow> - Math_PI \<le> y \<and> (x \<le> Math_PI \<longrightarrow> y \<le> Math_PI)"
    and eq: "(if a < - Math_PI then f (round_double (a + round_double (Math_PI * 2))) else Some a) = Some b"
  show "- Math_PI \<le> b \<and> (a \<le> Math_PI \<longrightarrow> b \<le> Math_PI)"
  proof (cases "a < - Math_PI")
    case True
    with eq have f: "f (round_double (a + Math_PI * 2)) = Some b"
      by (simp add: two_pi_exact)
    have "a + Math_PI * 2 \<le> Math_PI"
      using True by simp
    with is_double_Math_PI have "round_double (a + Math_PI * 2) \<le> Math_PI"
      by (rule round_double_le)
    with IH [OF f] show ?thesis by simp
  next
    case False
    with eq show ?thesis by auto
  qed
qed

lemma normalizeAngle_range:
  assumes "normalizeAngle a = Some r"
  shows "- Math_PI \<le> r \<and> r \<le> Math_PI"
proof -
  from assms obtain b where b: "normalizeAngle_down a = Some b" and r: "normalizeAngle_up b = Some r"
    by (auto simp: normalizeAngle_def split: option.splits)
  from b have "b \<le> Math_PI"
    by (rule normalizeAngle_down_le)
  with normalizeAngle_up_range [OF r] show ?thesis by simp
qed

lemma congruent_two_pi_refl: "congruent_two_pi a a"
proof -
  have "a = a + of_int 0 * (Math_PI * 2)" by simp
  then show ?thesis unfolding congruent_two_pi_def ..
qed

lemma congruent_two_pi_trans:
  assumes "congruent_two_pi r b" and "congruent_two_pi b a"
  shows "congruent_two_pi r a"
proof -
  from assms obtain j k :: int where "r = b + of_int j * (Math_PI * 2)"
    and "b = a + of_int k * (Math_PI * 2)"
    unfolding congruent_two_pi_def by blast
  then have "r = a + of_int (k + j) * (Math_PI * 2)"
    by (simp add: algebra_simps)
  then show ?thesis unfolding congruent_two_pi_def ..
qed

lemma congruent_two_pi_sub: "congruent_two_pi (a - Math_PI * 2) a"
proof -
  have "a - Math_PI * 2 = a + of_int (- 1) * (Math_PI * 2)" by simp
  then show ?thesis unfolding congruent_two_pi_def ..
qed

lemma congruent_two_pi_add: "congruent_two_pi (a + Math_PI * 2) a"
proof -
  have "a + Math_PI * 2 = a + of_int 1 * (Math_PI * 2)" by simp
  then show ?thesis unfolding congruent_two_pi_def ..
qed

lemma normalizeAngle_down_small:
  assumes "is_double a" and "- 64 \<le> a" and "a \<le> 64"
  shows "\<exists>b. normalizeAngle_down a = Some b \<and> is_double b \<and> - 64 \<le> b \<and> b \<le> Math_PI
           \<and> (Math_PI < a \<longrightarrow> - Math_PI < b) \<and> (a \<le> Math_PI \<longrightarrow> b = a)
           \<and> congruent_two_pi b a"
  using assms
proof (induction "nat \<lceil>a\<rceil>" arbitrary: a rule: less_induct)
  case less
  show ?case
  proof (cases "Math_PI < a")
    case False
    then have "normalizeAngle_down a = Some a"
      by (simp add: normalizeAngle_down_stop)
    then show ?thesis
      using False less.prems congruent_two_pi_refl [of a] by simp
  next
    case True
    define a' where "a' = a - Math_PI * 2"
    have ex: "round_double (a - Math_PI * 2) = a'"
      unfolding a'_def using less.prems(1) True less.prems(3) by (rule subtract_two_pi_exact)
    then have dbl: "is_double a'"
      by (simp add: is_double_def a'_def)
    have rng: "- Math_PI < a'" "a' \<le> 64" "- 64 \<le> a'" "a' < a - 6"
      using True less.prems(3) Math_PI_bounds by (simp_all add: a'_def)
    have "\<lceil>a'\<rceil> \<le> \<lceil>a - 6\<rceil>"
      using rng(4) by (intro ceiling_mono) simp
    moreover have "0 < \<lceil>a\<rceil>"
      using True Math_PI_bounds by (simp add: less_ceiling_iff)
    ultimately have "nat \<lceil>a'\<rceil> < nat \<lceil>a\<rceil>"
      by simp
    from less.hyps [OF this dbl rng(3,2)]
    obtain b where b: "normalizeAngle_down a' = Some b" "is_double b" "- 64 \<le> b"
      "b \<le> Math_PI" "Math_PI < a' \<longrightarrow> - Math_PI < b" "a' \<le> Math_PI \<longrightarrow> b = a'"
      "congruent_two_pi b a'"
      by blast
    have "normalizeAngle_down a = Some b"
      using True b(1) by (simp add: normalizeAngle_down_step ex)
    moreover have "- Math_PI < b"
      using b(5,6) rng(1) by (cases "Math_PI < a'") auto
    moreover have "congruent_two_pi b a"
      using b(7) congruent_two_pi_sub [of a] unfolding a'_def by (rule congruent_two_pi_trans)
    ultimately show ?thesis
      using True b(2,3,4) by simp
  qed
qed

lemma normalizeAngle_up_small:
  assumes "is_double a" and "- 64 \<le> a" and "a \<le> Math_PI"
  shows "\<exists>b. normalizeAngle_up a = Some b \<and> - Math_PI \<le> b \<and> b \<le> Math_PI
           \<and> (- Math_PI \<le> a \<longrightarrow> b = a) \<and> congruent_two_pi b a"
  using assms
proof (induction "nat \<lceil>- a\<rceil>" arbitrary: a rule: less_induct)
  case less
  show ?case
  proof (cases "a < - Math_PI")
    case False
    then have "normalizeAngle_up a = Some a"
      by (simp add: normalizeAngle_up_stop)
    then show ?thesis
      using False less.prems congruent_two_pi_refl [of a] by simp
  next
    case True
    define a' where "a' = a + Math_PI * 2"
    have ex: "round_double (a + Math_PI * 2) = a'"
      unfolding a'_def using less.prems(1) True less.prems(2) by (rule add_two_pi_exact)
    then have dbl: "is_double a'"
      by (simp add: is_double_def a'_def)
    have rng: "a' < Math_PI" "- 64 \<le> a'" "- a' < - a - 6"
      using True less.prems(2) Math_PI_bounds by (simp_all add: a'_def)
    have "\<lceil>- a'\<rceil> \<le> \<lceil>- a - 6\<rceil>"
      using rng(3) by (intro ceiling_mono) simp
    moreover have "0 < \<lceil>- a\<rceil>"
      using True Math_PI_bounds by (simp add: less_ceiling_iff)
    ultimately have "nat \<lceil>- a'\<rceil> < nat \<lceil>- a\<rceil>"
      by simp
    moreover have "a' \<le> Math_PI"
      using rng(1) by simp
    ultimately obtain b where b: "normalizeAngle_up a' = Some b" "- Math_PI \<le> b"
      "b \<le> Math_PI" "congruent_two_pi b a'"
      using less.hyps [OF _ dbl rng(2)] by blast
    have "normalizeAngle_up a = Some b"
      using True b(1) by (simp add: normalizeAngle_up_step ex)
    moreover have "congruent_two_pi b a"
      using b(4) congruent_two_pi_add [of a] unfolding a'_def by (rule congruent_two_pi_trans)
    ultimately show ?thesis
      using True b(2,3) by simp
  qed
qed

lemma normalizeAngle_small:
  assumes "is_double a" and "\<bar>a\<bar> \<le> 64"
  shows "\<exists>r. normalizeAngle a = Some r \<and> congruent_two_pi r a
           \<and> (- Math_PI < a \<longrightarrow> - Math_PI < r)"
proof -
  have "- 64 \<le> a" "a \<le> 64"
    using assms(2) by simp_all
  with assms(1) obtain b where b: "normalizeAngle_down a = Some b" "is_double b"
    "- 64 \<le> b" "b \<le> Math_PI" "Math_PI < a \<longrightarrow> - Math_PI < b" "a \<le> Math_PI \<longrightarrow> b = a"
    "congruent_two_pi b a"
    using normalizeAngle_down_small [of a] by blast
  from b(2,3,4) obtain r where r: "normalizeAngle_up b = Some r"
    "- Math_PI \<le> b \<longrightarrow> r = b" "congruent_two_pi r b"
    using normalizeAngle_up_small [of b] by blast
  have "normalizeAngle a = Some r"
    by (simp add: normalizeAngle_def b(1) r(1))
  moreover have "congruent_two_pi r a"
    using r(3) b(7) by (rule congruent_two_pi_trans)
  moreover have "- Math_PI < r" if "- Math_PI < a"
    using that b(5,6) r(2) by (cases "Math_PI < a") auto
  ultimately show ?thesis by blast
qed

lemma round_double_error:
  assumes "\<bar>v\<bar> < 2 ^ 53"
  shows "\<bar>round_double v - v\<bar> \<le> 1 / 2"
proof (cases "v = 0")
  case True
  then show ?thesis by simp
next
  case False
  define e where "e = ulp_exponent v"
  define p where "p = (2::real) powr of_int e"
  have "\<bar>v\<bar> < 2 powr of_int (0 + 53)"
    using assms by (simp add: powr_realpow [symmetric])
  with False have "e \<le> 0"
    unfolding e_def by (rule ulp_exponent_le) simp
  then have p1: "p \<le> 1" and p0: "0 < p"
    using powr_mono [of "of_int e" 0 2] by (simp_all add: p_def)
  have "round_double v - v = (of_int (round_even (v / p)) - v / p) * p"
    using False p0 by (simp add: round_double_def e_def p_def algebra_simps)
  then have "\<bar>round_double v - v\<bar> = \<bar>of_int (round_even (v / p)) - v / p\<bar> * p"
    using p0 by (simp add: abs_mult)
  also have "\<dots> \<le> (1 / 2) * 1"
    using round_even_error [of "v / p"] p0 p1 by (intro mult_mono) simp_all
  finally show ?thesis by simp
qed

lemma normalizeAngle_down_returns:
  assumes "a \<le> 2 ^ 53"
  shows "\<exists>b. normalizeAngle_down a = Some b \<and> b \<le> Math_PI \<and> min a (- 4) \<le> b"
  using assms
proof (induction "nat \<lceil>a\<rceil>" arbitrary: a rule: less_induct)
  case less
  show ?case
  proof (cases "Math_PI < a")
    case False
    then show ?thesis
      by (simp add: normalizeAngle_down_stop)
  next
    case True
    define a' where "a' = round_double (a - Math_PI * 2)"
    have "\<bar>a - Math_PI * 2\<bar> < 2 ^ 53"
      using True less.prems Math_PI_bounds by simp
    then have "\<bar>a' - (a - Math_PI * 2)\<bar> \<le> 1 / 2"
      unfolding a'_def by (rule round_double_error)
    moreover have "Math_PI < 7 / 2"
      by (simp add: Math_PI_def)
    ultimately have rng: "a' < a - 5" "- 4 < a'"
      using True Math_PI_bounds by linarith+
    have "\<lceil>a'\<rceil> \<le> \<lceil>a - 5\<rceil>"
      using rng(1) by (intro ceiling_mono) simp
    moreover have "0 < \<lceil>a\<rceil>"
      using True Math_PI_bounds by (simp add: less_ceiling_iff)
    ultimately have "nat \<lceil>a'\<rceil> < nat \<lceil>a\<rceil>"
      by simp
    moreover have "a' \<le> 2 ^ 53"
      using rng(1) less.prems by simp
    ultimately obtain b where b: "normalizeAngle_down a' = Some b" "b \<le> Math_PI" "min a' (- 4) \<le> b"
      using less.hyps by blast
    have "normalizeAngle_down a = Some b"
      using True b(1) by (simp add: normalizeAngle_down_step a'_def)
    moreover have "min a (- 4) \<le> b"
      using b(3) rng(2) by simp
    ultimately show ?thesis
      using b(2) by simp
  qed
qed

lemma normalizeAngle_up_returns:
  assumes "- (2 ^ 53) \<le> a"
  shows "\<exists>b. normalizeAngle_up a = Some b"
  using assms
proof (induction "nat \<lceil>- a\<rceil>" arbitrary: a rule: less_induct)
  case less
  show ?case
  proof (cases "a < - Math_PI")
    case False
    then show ?thesis
      by (simp add: normalizeAngle_up_stop)
  next
    case True
    define a' where "a' = round_double (a + Math_PI * 2)"
    have "\<bar>a + Math_PI * 2\<bar> < 2 ^ 53"
      using True less.prems Math_PI_bounds by simp
    then have "\<bar>a' - (a + Math_PI * 2)\<bar> \<le> 1 / 2"
      unfolding a'_def by (rule round_double_error)
    then have rng: "- a' < - a - 5"
      using True Math_PI_bounds by linarith
    have "\<lceil>- a'\<rceil> \<le> \<lceil>- a - 5\<rceil>"
      using rng(1) by (intro ceiling_mono) simp
    moreover have "0 < \<lceil>- a\<rceil>"
      using True Math_PI_bounds by (simp add: less_ceiling_iff)
    ultimately have "nat \<lceil>- a'\<rceil> < nat \<lceil>- a\<rceil>"
      by simp
    moreover have "- (2 ^ 53) \<le> a'"
      using rng(1) less.prems by simp
    ultimately obtain b where "normalizeAngle_up a' = Some b"
      using less.hyps by blast
    then have "normalizeAngle_up a = Some b"
      using True by (simp add: normalizeAngle_up_step a'_def)
    then show ?thesis ..
  qed
qed

lemma normalizeAngle_returns:
  assumes "\<bar>a\<bar> \<le> 2 ^ 53"
  shows "\<exists>r. normalizeAngle a = Some r"
proof -
  have "a \<le> 2 ^ 53" "- (2 ^ 53) \<le> a"
    using assms by simp_all
  then obtain b where b: "normalizeAngle_down a = Some b" "min a (- 4) \<le> b"
    using normalizeAngle_down_returns [of a] by blast
  have "- (2 ^ 53) \<le> b"
    using b(2) \<open>- (2 ^ 53) \<le> a\<close> by simp
  then obtain r where "normalizeAngle_up b = Some r"
    using normalizeAngle_up_returns [of b] by blast
  then have "normalizeAngle a = Some r"
    by (simp add: normalizeAngle_def b(1))
  then show ?thesis ..
qed

text \<open>
  Claim C5 as stated fails twice, with \<open>\<pi>\<close> read as the constant \<^verbatim>\<open>Math.PI\<close> of the
  code. The second loop tests \<^verbatim>\<open>a < -Math.PI\<close> strictly, so \<^verbatim>\<open>-Math.PI\<close> is returned
  as it is, outside the half-open interval. And at \<^verbatim>\<open>1e17\<close> the subtraction of
  \<^verbatim>\<open>2 * Math.PI\<close> rounds back to \<^verbatim>\<open>1e17\<close>, so the first loop never ends and the
  function does not return.
\<close>

theorem normalizeAngle_counterexample:
  "normalizeAngle (- Math_PI) = Some (- Math_PI)
   \<and> \<not> (- Math_PI < - Math_PI \<and> - Math_PI \<le> Math_PI)
   \<and> normalizeAngle 100000000000000000 = None"
proof -
  have "normalizeAngle (- Math_PI) = Some (- Math_PI)"
    using Math_PI_bounds
    by (simp add: normalizeAngle_def normalizeAngle_down_stop normalizeAngle_up_stop)
  then show ?thesis
    by (simp add: normalizeAngle_stuck)
qed

text \<open>
  Claim C5, amended: \<^verbatim>\<open>normalizeAngle\<close> returns for every input of magnitude at most
  \<^verbatim>\<open>2 ** 53\<close>; whenever it returns, the result lies in the closed interval from
  \<^verbatim>\<open>-Math.PI\<close> to \<^verbatim>\<open>Math.PI\<close>; for a double of magnitude at most 64 no step rounds, the
  result differs from the input by a whole multiple of the double \<^verbatim>\<open>2 * Math.PI\<close>, and
  it is above \<^verbatim>\<open>-Math.PI\<close> when the input is; and at \<^verbatim>\<open>1e17\<close> the function does not
  return.
\<close>

theorem normalizeAngle_on_doubles:
  "(\<bar>a\<bar> \<le> 2 ^ 53 \<longrightarrow> (\<exists>r. normalizeAngle a = Some r))
   \<and> (normalizeAngle a = Some r \<longrightarrow> - Math_PI \<le> r \<and> r \<le> Math_PI)
   \<and> (is_double a \<and> \<bar>a\<bar> \<le> 64 \<longrightarrow>
        (\<exists>r' (k::int). normalizeAngle a = Some r' \<and> r' = a + of_int k * (Math_PI * 2)
           \<and> (- Math_PI < a \<longrightarrow> - Math_PI < r')))
   \<and> normalizeAngle 100000000000000000 = None"
proof (intro conjI impI)
  assume "\<bar>a\<bar> \<le> 2 ^ 53"
  then show "\<exists>r. normalizeAngle a = Some r"
    by (rule normalizeAngle_returns)
next
  assume "normalizeAngle a = Some r"
  then have "- Math_PI \<le> r \<and> r \<le> Math_PI"
    by (rule normalizeAngle_range)
  then show "- Math_PI \<le> r" and "r \<le> Math_PI"
    by simp_all
next
  assume "is_double a \<and> \<bar>a\<bar> \<le> 64"
  then obtain r' where "normalizeAngle a = Some r'" "congruent_two_pi r' a"
    "- Math_PI < a \<longrightarrow> - Math_PI < r'"
    using normalizeAngle_small [of a] by blast
  then show "\<exists>r' (k::int). normalizeAngle a = Some r' \<and> r' = a + of_int k * (Math_PI * 2)
           \<and> (- Math_PI < a \<longrightarrow> - Math_PI < r')"
    unfolding congruent_two_pi_def by blast
next
  show "normalizeAngle 100000000000000000 = None"
    by (rule normalizeAngle_stuck)
qed

text \<open>
  The amended claim C5 at the angle 4: one turn is subtracted, without rounding.
\<close>

theorem normalizeAngle_on_doubles_witness:
  "\<bar>4 :: real\<bar> \<le> 2 ^ 53 \<and> is_double 4 \<and> \<bar>4 :: real\<bar> \<le> 64 \<and> - Math_PI < 4
   \<and> normalizeAngle 4 = Some (4 - Math_PI * 2)
   \<and> - Math_PI \<le> 4 - Math_PI * 2 \<and> 4 - Math_PI * 2 \<le> Math_PI"
proof -
  have d4: "is_double 4"
    using is_double_of_int [of 4] by simp
  have "round_double (4 - Math_PI * 2) = 4 - Math_PI * 2"
    using d4 Math_PI_bounds by (intro subtract_two_pi_exact) simp_all
  then have n4: "normalizeAngle 4 = Some (4 - Math_PI * 2)"
    using Math_PI_bounds
    by (simp add: normalizeAngle_def normalizeAngle_down_step normalizeAngle_down_stop
        normalizeAngle_up_stop)
  from normalizeAngle_on_doubles [of 4 "4 - Math_PI * 2"] d4 n4 Math_PI_bounds
  show ?thesis by simp
qed


section \<open>The orbit of the leaders\<close>

text \<open>
  Claim C10: with the canvas at hand, every frame sets the position of each leader to
  \<open>x = width / 2 + cos (t * speed + offset) * 0.4 * width\<close> and
  \<open>y = height / 2 + sin (t * speed * 0.7 + offset) * 0.3 * height\<close>, where \<open>t\<close> is the
  clock reading times 0.0001; speed and offset are kept; and the position before the frame
  plays no part in the new one.
\<close>

theorem leader_orbit:
  "animate_leaders (Some (width, height)) now leaders
     = map (\<lambda>l. \<lparr>x = width / 2 + cos (now * 0.0001 * speed l + offset l) * (0.4 * width),
                  y = height / 2 + sin (now * 0.0001 * speed l * 0.7 + offset l) * (0.3 * height),
                  speed = speed l, offset = offset l\<rparr>) leaders
   \<and> move_leader t width height (l\<lparr>x := a, y := b\<rparr>) = move_leader t width height l"
  by (simp add: animate_leaders_def move_leader_def mult.commute)


section \<open>The render after a handler\<close>

text \<open>
  Only the navigation changes the section, so after every other event the render updates
  the effect of the view; after a navigation it removes the view or leaves it alone.
\<close>

lemma render_effects_frame:
  "isScanning (render_effects p w) = isScanning w"
  "tasks (render_effects p w) = tasks w"
  "analyzeCalls (render_effects p w) = analyzeCalls w"
  "uploadedFile (render_effects p w) = uploadedFile w"
  "filePreviewUrl (render_effects p w) = filePreviewUrl w"
  "scanResults (render_effects p w) = scanResults w"
  "showResults (render_effects p w) = showResults w"
  "isDataSaved (render_effects p w) = isDataSaved w"
  "savedScans (render_effects p w) = savedScans w"
  "readers (render_effects p w) = readers w"
  "saveCalls (render_effects p w) = saveCalls w"
  "alerts (render_effects p w) = alerts w"
  "consoleErrors (render_effects p w) = consoleErrors w"
  "currentSection (render_effects p w) = currentSection w"
  "orphans (render_effects p w) = orphans w"
  by (simp_all add: render_effects_def effect_cleanup_def revokeObjectURL_def split: option.splits)

lemma render_effects_same: "filePreviewUrl w = p \<Longrightarrow> render_effects p w = w"
  by (simp add: render_effects_def)

lemma handleFileChange_section:
  "currentSection (handleFileChange fl w) = currentSection w"
  by (simp add: handleFileChange_def createObjectURL_def revokeObjectURL_def Let_def
      split: option.splits prod.splits)

lemma readerFinished_section:
  "currentSection (readerFinished i outcome now w) = currentSection w"
  by (cases outcome; simp add: readerFinished_def onloadend_def onerror_def)

lemma step_simps:
  "step DragOver w = render_effects (filePreviewUrl w) (w\<lparr>isDragging := True\<rparr>)"
  "step DragLeave w = render_effects (filePreviewUrl w) (w\<lparr>isDragging := False\<rparr>)"
  "step (Drop files) w = render_effects (filePreviewUrl w) (handleDrop files w)"
  "step (FileInput files) w = render_effects (filePreviewUrl w) (onFileInputChange files w)"
  "step StartClick w = render_effects (filePreviewUrl w) (startScan w)"
  "step ResetClick w = render_effects (filePreviewUrl w) (resetScan w)"
  "step SaveClick w = render_effects (filePreviewUrl w) (handleSaveClick w)"
  "step (DelayElapsed i) w
     = render_effects (filePreviewUrl w) (resume i AwaitDelay startScan_afterDelay w)"
  "step (AnalysisResolved i res) w
     = render_effects (filePreviewUrl w) (resume i AwaitAnalysis (startScan_afterAnalysis res) w)"
  "step (ShowTimerFired i) w
     = render_effects (filePreviewUrl w) (resume i ShowTimer showTimer_callback w)"
  "step (ReaderFinished i outcome now) w
     = render_effects (filePreviewUrl w) (readerFinished i outcome now w)"
  "step (StaleDelayElapsed i) w = resume_orphan i AwaitDelay stale_afterDelay w"
  "step (StaleAnalysisResolved i res) w = resume_orphan i AwaitAnalysis (stale_afterAnalysis res) w"
  "step (StaleTimerFired i) w = resume_orphan i ShowTimer stale_showTimer w"
  by (simp_all add: step_def Let_def handleDrop_def onFileInputChange_def
      handleFileChange_section startScan_def resetScan_def handleSaveClick_def handleSaveScan_def
      resume_def startScan_afterDelay_def startScan_afterAnalysis_def showTimer_callback_def
      readerFinished_section resume_orphan_def stale_afterDelay_def stale_afterAnalysis_def
      stale_showTimer_def render_effects_same split: list.splits)

lemma step_Navigate:
  "step (Navigate section) w =
     (if section = currentSection w then w
      else if currentSection w = Scanning then leave_scanning (w\<lparr>currentSection := section\<rparr>)
      else w\<lparr>currentSection := section\<rparr>)"
  by (simp add: step_def Let_def handleNavigate_def render_effects_same)

lemma first_navigation: "step (Navigate Scanning) app_start = initial_world"
  by (simp add: step_Navigate app_start_def initial_world_def)

lemmas handler_defs = handleFileChange_def handleDrop_def onFileInputChange_def startScan_def
  startScan_afterDelay_def startScan_afterAnalysis_def showTimer_callback_def resume_def
  handleSaveScan_def onloadend_def onerror_def readerFinished_def resetScan_def
  handleSaveClick_def effect_cleanup_def render_effects_def revokeObjectURL_def
  createObjectURL_def step_simps step_Navigate leave_scanning_def unmount_def
  resume_orphan_def stale_afterDelay_def stale_afterAnalysis_def stale_showTimer_def


section \<open>Preview URLs\<close>

text \<open>
  Both invariants of the object URLs hold at the first render and are kept by every
  event, hence in every state that a run reaches.
\<close>

lemma url_inv_initial: "url_inv initial_world"
  by (simp add: url_inv_def initial_world_def list_of_option_def)

lemma readerFinished_urls:
  "filePreviewUrl (readerFinished i outcome now w) = filePreviewUrl w"
  "blobStore (readerFinished i outcome now w) = blobStore w"
  "nextBlob (readerFinished i outcome now w) = nextBlob w"
  "urlCalls (readerFinished i outcome now w) = urlCalls w"
  by (cases outcome; simp add: readerFinished_def onloadend_def onerror_def)+

lemma url_inv_step: "url_inv w \<Longrightarrow> url_inv (step e w)"
proof (cases e)
  case (ReaderFinished i outcome now)
  then show "url_inv w \<Longrightarrow> url_inv (step e w)"
    by (simp add: url_inv_def step_simps render_effects_def readerFinished_urls)
qed (auto simp: url_inv_def list_of_option_def handler_defs Let_def split: option.splits list.splits)

lemma peak_live_append:
  "peak_live (cs @ ds) s = max (peak_live cs s) (peak_live ds (fold apply_url_op cs s))"
proof (induction cs arbitrary: s)
  case Nil
  have "length s \<le> peak_live ds s" by (cases ds) simp_all
  then show ?case by simp
next
  case (Cons c cs)
  then show ?case by simp
qed

lemma log_inv_initial: "log_inv initial_world"
  by (simp add: log_inv_def initial_world_def)

lemma log_inv_step: "url_inv w \<Longrightarrow> log_inv w \<Longrightarrow> log_inv (step e w)"
proof (cases e)
  case (ReaderFinished i outcome now)
  then show "url_inv w \<Longrightarrow> log_inv w \<Longrightarrow> log_inv (step e w)"
    by (simp add: log_inv_def step_simps render_effects_def readerFinished_urls)
qed (auto simp: url_inv_def log_inv_def list_of_option_def peak_live_append handler_defs Let_def
       split: option.splits list.splits)

lemma reachable_inv: "url_inv w \<Longrightarrow> log_inv w \<Longrightarrow> url_inv (run es w) \<and> log_inv (run es w)"
  by (induction es arbitrary: w) (simp_all add: url_inv_step log_inv_step)

lemma reachable_url_inv: "url_inv (run es initial_world)"
  by (simp add: reachable_inv url_inv_initial log_inv_initial)

lemma reachable_log_inv: "log_inv (run es initial_world)"
  by (simp add: reachable_inv url_inv_initial log_inv_initial)

lemma handleFileChange_reject:
  assumes inv: "url_inv w" and rej: "fl = None \<or> \<not> is_image (the fl)"
  shows "render_effects prev (handleFileChange fl w) =
           (if prev = None then handleFileChange fl w
            else effect_cleanup prev (handleFileChange fl w))"
    and "handleFileChange fl w =
           w\<lparr>blobStore := [],
             urlCalls := urlCalls w @ map RevokeObjectURL (list_of_option (filePreviewUrl w)),
             uploadedFile := None, filePreviewUrl := None\<rparr>"
  using inv rej
  by (auto simp: url_inv_def list_of_option_def handleFileChange_def render_effects_def
      effect_cleanup_def revokeObjectURL_def Let_def split: option.splits)

text \<open>
  Claim C6: in every state reached from the first render, staging an input that is absent
  (an input change without files) or whose first file has a media type that does not start
  with \<^verbatim>\<open>image/\<close> leaves no file staged and no preview URL, live or recorded; the
  previous URL, if any, is revoked; no URL is created (the log gains revocations only and
  the supply of URLs is untouched); no alert and no console message is issued; the flags,
  the results, the pending continuations and the saved scans are as before.
\<close>

theorem stage_non_image_clears:
  assumes ev: "e = FileInput fs \<or> (e = Drop fs \<and> fs \<noteq> [])"
    and rej: "fs = [] \<or> \<not> is_image (hd fs)"
  shows "let w = run es initial_world; w' = step e w in
           uploadedFile w' = None \<and> filePreviewUrl w' = None \<and> blobStore w' = []
           \<and> nextBlob w' = nextBlob w
           \<and> urlCalls w' = urlCalls w @
                 (case filePreviewUrl w of None \<Rightarrow> []
                  | Some u \<Rightarrow> [RevokeObjectURL u, RevokeObjectURL u])
           \<and> alerts w' = alerts w \<and> consoleErrors w' = consoleErrors w
           \<and> isScanning w' = isScanning w \<and> scanResults w' = scanResults w
           \<and> showResults w' = showResults w \<and> isDataSaved w' = isDataSaved w
           \<and> tasks w' = tasks w \<and> analyzeCalls w' = analyzeCalls w
           \<and> savedScans w' = savedScans w \<and> saveCalls w' = saveCalls w"
proof -
  define w where "w = run es initial_world"
  have inv: "url_inv w"
    unfolding w_def by (rule reachable_url_inv)
  have "uploadedFile (step e w) = None \<and> filePreviewUrl (step e w) = None \<and> blobStore (step e w) = []
           \<and> nextBlob (step e w) = nextBlob w
           \<and> urlCalls (step e w) = urlCalls w @
                 (case filePreviewUrl w of None \<Rightarrow> []
                  | Some u \<Rightarrow> [RevokeObjectURL u, RevokeObjectURL u])
           \<and> alerts (step e w) = alerts w \<and> consoleErrors (step e w) = consoleErrors w
           \<and> isScanning (step e w) = isScanning w \<and> scanResults (step e w) = scanResults w
           \<and> showResults (step e w) = showResults w \<and> isDataSaved (step e w) = isDataSaved w
           \<and> tasks (step e w) = tasks w \<and> analyzeCalls (step e w) = analyzeCalls w
           \<and> savedScans (step e w) = savedScans w \<and> saveCalls (step e w) = saveCalls w"
    using ev rej inv
    by (auto simp: url_inv_def list_of_option_def handler_defs Let_def
        split: option.splits list.splits)
  then show ?thesis
    unfolding w_def by (simp add: Let_def)
qed

text \<open>
  Claim C6 at a concrete run: \<^verbatim>\<open>sample.jpg\<close> is staged, then \<^verbatim>\<open>notes.txt\<close>, which is
  no image.
\<close>

theorem stage_non_image_clears_witness:
  "\<not> is_image notes_txt
   \<and> uploadedFile (run [FileInput [sample_jpg], FileInput [notes_txt]] initial_world) = None
   \<and> blobStore (run [FileInput [sample_jpg], FileInput [notes_txt]] initial_world) = []
   \<and> urlCalls (run [FileInput [sample_jpg], FileInput [notes_txt]] initial_world)
       = [CreateObjectURL 0, RevokeObjectURL 0, RevokeObjectURL 0]"
proof -
  have rej: "[notes_txt] = [] \<or> \<not> is_image (hd [notes_txt])"
    by (simp add: is_image_def notes_txt_def)
  have ev: "FileInput [notes_txt] = FileInput [notes_txt]
      \<or> (FileInput [notes_txt] = Drop [notes_txt] \<and> [notes_txt] \<noteq> [])"
    by simp
  have pre: "run [FileInput [sample_jpg]] initial_world
      = initial_world\<lparr>uploadedFile := Some sample_jpg, filePreviewUrl := Some 0,
          blobStore := [0], nextBlob := 1, urlCalls := [CreateObjectURL 0]\<rparr>"
    by (simp add: handler_defs initial_world_def is_image_def sample_jpg_def)
  have two: "run [FileInput [sample_jpg], FileInput [notes_txt]] initial_world
      = step (FileInput [notes_txt]) (run [FileInput [sample_jpg]] initial_world)"
    by simp
  from stage_non_image_clears [OF ev rej, of "[FileInput [sample_jpg]]"] rej
  show ?thesis
    unfolding two Let_def pre by simp
qed

lemma restage_image:
  assumes inv: "url_inv w" and img: "is_image f" and cur: "filePreviewUrl w = Some u"
    and ev: "e = FileInput (f # fs) \<or> e = Drop (f # fs)"
  shows "urlCalls (step e w) = urlCalls w @ [RevokeObjectURL u, CreateObjectURL (nextBlob w), RevokeObjectURL u]"
    and "blobStore (step e w) = [nextBlob w]"
    and "filePreviewUrl (step e w) = Some (nextBlob w)"
    and "uploadedFile (step e w) = Some f"
    and "u \<noteq> nextBlob w"
  using inv img cur ev
  by (auto simp: url_inv_def list_of_option_def handler_defs Let_def)

lemma unmount_releases: "url_inv w \<Longrightarrow> blobStore (unmount w) = []"
  by (auto simp: url_inv_def list_of_option_def unmount_def effect_cleanup_def revokeObjectURL_def
      split: option.splits)

lemma unmount_peak:
  assumes "url_inv w" and "log_inv w"
  shows "peak_live (urlCalls (unmount w)) [] \<le> 1"
  using assms
  by (auto simp: url_inv_def log_inv_def list_of_option_def unmount_def effect_cleanup_def
      revokeObjectURL_def peak_live_append split: option.splits)

lemma leave_scanning_releases:
  assumes "url_inv w" and "currentSection w = Scanning" and "section \<noteq> Scanning"
  shows "blobStore (step (Navigate section) w) = []"
    and "filePreviewUrl (step (Navigate section) w) = None"
  using assms
  by (auto simp: url_inv_def list_of_option_def step_Navigate leave_scanning_def unmount_def
      effect_cleanup_def revokeObjectURL_def split: option.splits)

lemma resetScan_releases: "url_inv w \<Longrightarrow> blobStore (step ResetClick w) = []"
  by (auto simp: url_inv_def list_of_option_def step_simps resetScan_def handleFileChange_def
      revokeObjectURL_def render_effects_def effect_cleanup_def split: option.splits)

text \<open>
  Claim C7: along every run from the first render, at every moment of the log of URL calls
  at most one preview URL is live, and the live URLs are exactly the value of
  \<^verbatim>\<open>filePreviewUrl\<close>. Staging an image while a URL \<open>u\<close> is current makes three calls:
  \<^verbatim>\<open>handleFileChange\<close> revokes \<open>u\<close> and creates one new URL, different from \<open>u\<close>, and the
  cleanup of the effect revokes \<open>u\<close> once more, when it is no longer live. Replayed on the
  store, these calls release exactly one URL, \<open>u\<close>, exactly once, and create exactly one;
  the store holds \<open>u\<close>, then nothing, then the new URL, so the release comes before the
  creation and the two are never live together. The live URL is released by a reset, by
  a navigation that takes the scanning view away, and by the teardown of the component,
  again with at most one URL live at every moment.
\<close>

theorem preview_url_single_live:
  "let w = run es initial_world in
     peak_live (urlCalls w) [] \<le> 1
     \<and> blobStore w = list_of_option (filePreviewUrl w)
     \<and> (\<forall>e f fs u. is_image f \<and> filePreviewUrl w = Some u
            \<and> (e = FileInput (f # fs) \<or> e = Drop (f # fs)) \<longrightarrow>
          (let calls = [RevokeObjectURL u, CreateObjectURL (nextBlob w), RevokeObjectURL u] in
             urlCalls (step e w) = urlCalls w @ calls
             \<and> released calls (blobStore w) = [u]
             \<and> created calls = [nextBlob w]
             \<and> store_trace calls (blobStore w) = [[u], [], [nextBlob w], [nextBlob w]]
             \<and> u \<noteq> nextBlob w
             \<and> blobStore (step e w) = [nextBlob w]
             \<and> filePreviewUrl (step e w) = Some (nextBlob w)))
     \<and> blobStore (step ResetClick w) = []
     \<and> (\<forall>section. currentSection w = Scanning \<and> section \<noteq> Scanning \<longrightarrow>
           blobStore (step (Navigate section) w) = []
           \<and> filePreviewUrl (step (Navigate section) w) = None)
     \<and> blobStore (unmount w) = []
     \<and> peak_live (urlCalls (unmount w)) [] \<le> 1"
proof -
  define w where "w = run es initial_world"
  have inv: "url_inv w" and log: "log_inv w"
    unfolding w_def by (rule reachable_url_inv, rule reachable_log_inv)
  have "peak_live (urlCalls w) [] \<le> 1"
    using log by (simp add: log_inv_def)
  moreover have "blobStore w = list_of_option (filePreviewUrl w)"
    using inv by (simp add: url_inv_def)
  moreover have "blobStore (step ResetClick w) = []"
    using inv by (rule resetScan_releases)
  moreover have "\<forall>section. currentSection w = Scanning \<and> section \<noteq> Scanning \<longrightarrow>
           blobStore (step (Navigate section) w) = []
           \<and> filePreviewUrl (step (Navigate section) w) = None"
    using leave_scanning_releases [OF inv] by simp
  moreover have "blobStore (unmount w) = []"
    using inv by (rule unmount_releases)
  moreover have "peak_live (urlCalls (unmount w)) [] \<le> 1"
    using inv log by (rule unmount_peak)
  moreover have "\<forall>e f fs u. is_image f \<and> filePreviewUrl w = Some u
            \<and> (e = FileInput (f # fs) \<or> e = Drop (f # fs)) \<longrightarrow>
          (let calls = [RevokeObjectURL u, CreateObjectURL (nextBlob w), RevokeObjectURL u] in
             urlCalls (step e w) = urlCalls w @ calls
             \<and> released calls (blobStore w) = [u]
             \<and> created calls = [nextBlob w]
             \<and> store_trace calls (blobStore w) = [[u], [], [nextBlob w], [nextBlob w]]
             \<and> u \<noteq> nextBlob w
             \<and> blobStore (step e w) = [nextBlob w]
             \<and> filePreviewUrl (step e w) = Some (nextBlob w))"
  proof (intro allI impI, elim conjE)
    fix e f fs u
    assume a: "is_image f" "filePreviewUrl w = Some u" "e = FileInput (f # fs) \<or> e = Drop (f # fs)"
    have store: "blobStore w = [u]"
      using inv a(2) by (simp add: url_inv_def list_of_option_def)
    have fresh: "u \<noteq> nextBlob w"
      using restage_image(5) [OF inv a] .
    from restage_image [OF inv a] fresh
    show "let calls = [RevokeObjectURL u, CreateObjectURL (nextBlob w), RevokeObjectURL u] in
             urlCalls (step e w) = urlCalls w @ calls
             \<and> released calls (blobStore w) = [u]
             \<and> created calls = [nextBlob w]
             \<and> store_trace calls (blobStore w) = [[u], [], [nextBlob w], [nextBlob w]]
             \<and> u \<noteq> nextBlob w
             \<and> blobStore (step e w) = [nextBlob w]
             \<and> filePreviewUrl (step e w) = Some (nextBlob w)"
      by (simp add: Let_def store)
  qed
  ultimately show ?thesis
    unfolding Let_def w_def [symmetric] by simp
qed

text \<open>
  Claim C7 at a concrete run: \<^verbatim>\<open>sample.jpg\<close> is chosen in the file input and then
  dropped on the drop zone.
\<close>

theorem preview_url_single_live_witness:
  "is_image sample_jpg
   \<and> filePreviewUrl (run [FileInput [sample_jpg]] initial_world) = Some 0
   \<and> urlCalls (run [FileInput [sample_jpg], Drop [sample_jpg]] initial_world)
       = [CreateObjectURL 0, RevokeObjectURL 0, CreateObjectURL 1, RevokeObjectURL 0]
   \<and> released [RevokeObjectURL 0, CreateObjectURL 1, RevokeObjectURL 0] [0] = [0]
   \<and> store_trace [RevokeObjectURL 0, CreateObjectURL 1, RevokeObjectURL 0] [0] = [[0], [], [1], [1]]
   \<and> blobStore (run [FileInput [sample_jpg], Drop [sample_jpg]] initial_world) = [1]
   \<and> currentSection (run [FileInput [sample_jpg]] initial_world) = Scanning
   \<and> blobStore (run [FileInput [sample_jpg], Navigate Home] initial_world) = []"
proof -
  define w where "w = run [FileInput [sample_jpg]] initial_world"
  have img: "is_image sample_jpg"
    by (simp add: is_image_def sample_jpg_def)
  have pre: "w = initial_world\<lparr>uploadedFile := Some sample_jpg, filePreviewUrl := Some 0,
          blobStore := [0], nextBlob := 1, urlCalls := [CreateObjectURL 0]\<rparr>"
    unfolding w_def by (simp add: handler_defs initial_world_def is_image_def sample_jpg_def)
  have two: "run [FileInput [sample_jpg], Drop [sample_jpg]] initial_world = step (Drop [sample_jpg]) w"
    and nav: "run [FileInput [sample_jpg], Navigate Home] initial_world = step (Navigate Home) w"
    unfolding w_def by simp_all
  have cur: "filePreviewUrl w = Some 0"
    and calls: "urlCalls w = [CreateObjectURL 0]"
    and nxt: "nextBlob w = 1"
    and store: "blobStore w = [0]"
    and sec: "currentSection w = Scanning"
    unfolding pre by (simp_all add: initial_world_def)
  have ev: "Drop [sample_jpg] = FileInput (sample_jpg # []) \<or> Drop [sample_jpg] = Drop (sample_jpg # [])"
    by simp
  note all = preview_url_single_live [of "[FileInput [sample_jpg]]", unfolded Let_def, folded w_def]
  from all have "is_image sample_jpg \<and> filePreviewUrl w = Some 0
        \<and> (Drop [sample_jpg] = FileInput (sample_jpg # []) \<or> Drop [sample_jpg] = Drop (sample_jpg # []))
        \<longrightarrow> urlCalls (step (Drop [sample_jpg]) w)
              = urlCalls w @ [RevokeObjectURL 0, CreateObjectURL (nextBlob w), RevokeObjectURL 0]
          \<and> released [RevokeObjectURL 0, CreateObjectURL (nextBlob w), RevokeObjectURL 0] (blobStore w) = [0]
          \<and> created [RevokeObjectURL 0, CreateObjectURL (nextBlob w), RevokeObjectURL 0] = [nextBlob w]
          \<and> store_trace [RevokeObjectURL 0, CreateObjectURL (nextBlob w), RevokeObjectURL 0] (blobStore w)
              = [[0], [], [nextBlob w], [nextBlob w]]
          \<and> 0 \<noteq> nextBlob w
          \<and> blobStore (step (Drop [sample_jpg]) w) = [nextBlob w]
          \<and> filePreviewUrl (step (Drop [sample_jpg]) w) = Some (nextBlob w)"
    by (elim conjE allE)
  with img cur ev
  have staged: "urlCalls (step (Drop [sample_jpg]) w)
              = urlCalls w @ [RevokeObjectURL 0, CreateObjectURL (nextBlob w), RevokeObjectURL 0]
          \<and> released [RevokeObjectURL 0, CreateObjectURL (nextBlob w), RevokeObjectURL 0] (blobStore w) = [0]
          \<and> store_trace [RevokeObjectURL 0, CreateObjectURL (nextBlob w), RevokeObjectURL 0] (blobStore w)
              = [[0], [], [nextBlob w], [nextBlob w]]
          \<and> blobStore (step (Drop [sample_jpg]) w) = [nextBlob w]"
    by simp
  from all have "currentSection w = Scanning \<and> Home \<noteq> Scanning \<longrightarrow>
           blobStore (step (Navigate Home) w) = [] \<and> filePreviewUrl (step (Navigate Home) w) = None"
    by (elim conjE allE)
  with sec have left: "blobStore (step (Navigate Home) w) = []"
    by simp
  from staged left img cur sec show ?thesis
    unfolding two nav w_def [symmetric] calls nxt store by simp
qed


section \<open>Analyses in flight\<close>

text \<open>
  What the staging of a file and the end of a read leave alone; then the invariant that
  ties the analyses in flight to \<^verbatim>\<open>isScanning\<close>.
\<close>

lemma handleFileChange_frame:
  "isScanning (handleFileChange fl w) = isScanning w"
  "tasks (handleFileChange fl w) = tasks w"
  "analyzeCalls (handleFileChange fl w) = analyzeCalls w"
  "orphans (handleFileChange fl w) = orphans w"
  by (simp_all add: handleFileChange_def createObjectURL_def revokeObjectURL_def Let_def
      split: option.splits prod.splits)

lemma readerFinished_frame:
  "isScanning (readerFinished i outcome now w) = isScanning w"
  "tasks (readerFinished i outcome now w) = tasks w"
  "analyzeCalls (readerFinished i outcome now w) = analyzeCalls w"
  "orphans (readerFinished i outcome now w) = orphans w"
  by (cases outcome; simp add: readerFinished_def onloadend_def onerror_def)+

lemma filter_remove_nth:
  assumes "i < length ts"
  shows "length (filter P (take i ts @ drop (Suc i) ts)) + (if P (ts ! i) then 1 else 0)
           = length (filter P ts)"
proof -
  have "ts = take i ts @ ts ! i # drop (Suc i) ts"
    using assms by (rule id_take_nth_drop)
  then have "length (filter P ts) = length (filter P (take i ts @ ts ! i # drop (Suc i) ts))"
    by simp
  then show ?thesis by simp
qed

lemma own_resume:
  assumes "i < length (tasks w)"
  shows "length (filter (\<lambda>t. t \<noteq> ShowTimer) (take i (tasks w) @ drop (Suc i) (tasks w)))
           + (if tasks w ! i \<noteq> ShowTimer then 1 else 0)
         = length (filter (\<lambda>t. t \<noteq> ShowTimer) (tasks w))"
  using assms by (rule filter_remove_nth)

lemma orphans_resume:
  assumes "filter (\<lambda>t. t \<noteq> ShowTimer) ts = []"
  shows "filter (\<lambda>t. t \<noteq> ShowTimer) (take i ts @ drop (Suc i) ts) = []"
proof -
  have "set (take i ts @ drop (Suc i) ts) \<subseteq> set ts"
    using set_take_subset [of i ts] set_drop_subset [of "Suc i" ts] by auto
  with assms show ?thesis
    by (auto simp: filter_empty_conv)
qed

lemma orphans_nth:
  assumes "filter (\<lambda>t. t \<noteq> ShowTimer) ts = []" and "i < length ts"
  shows "ts ! i = ShowTimer"
  using assms by (auto simp: filter_empty_conv)

lemma flight_inv_initial: "flight_inv initial_world"
  by (simp add: flight_inv_def initial_world_def)

lemma flight_inv_inFlight: "flight_inv w \<Longrightarrow> inFlight w = (if isScanning w then 1 else 0)"
  by (simp add: flight_inv_def inFlight_def)

lemma flight_inv_step:
  assumes inv: "flight_inv w" and ok: "\<not> (isScanning w \<and> abandons e w)"
  shows "flight_inv (step e w)"
proof (cases e)
  case DragOver
  with inv show ?thesis
    by (auto simp: flight_inv_def step_simps render_effects_frame split: if_splits)
next
  case DragLeave
  with inv show ?thesis
    by (auto simp: flight_inv_def step_simps render_effects_frame split: if_splits)
next
  case (Drop fs)
  with inv show ?thesis
    by (cases fs)
       (auto simp: flight_inv_def step_simps render_effects_frame
          handleDrop_def handleFileChange_frame split: if_splits)
next
  case (FileInput fs)
  with inv show ?thesis
    by (auto simp: flight_inv_def step_simps render_effects_frame
          onFileInputChange_def handleFileChange_frame split: if_splits)
next
  case StartClick
  with inv show ?thesis
    by (auto simp: flight_inv_def step_simps render_effects_frame startScan_def split: if_splits)
next
  case ResetClick
  with inv ok show ?thesis
    by (auto simp: flight_inv_def step_simps render_effects_frame resetScan_def
          handleFileChange_frame split: if_splits)
next
  case SaveClick
  with inv show ?thesis
    by (auto simp: flight_inv_def step_simps render_effects_frame
          handleSaveClick_def handleSaveScan_def split: if_splits)
next
  case (DelayElapsed i)
  show ?thesis
  proof (cases "i < length (tasks w) \<and> tasks w ! i = AwaitDelay")
    case True
    with own_resume [of i w] inv DelayElapsed show ?thesis
      by (auto simp: flight_inv_def step_simps render_effects_frame resume_def
            startScan_afterDelay_def split: if_splits)
  next
    case False
    with inv DelayElapsed show ?thesis
      by (auto simp: flight_inv_def step_simps render_effects_frame resume_def split: if_splits)
  qed
next
  case (AnalysisResolved i res)
  show ?thesis
  proof (cases "i < length (tasks w) \<and> tasks w ! i = AwaitAnalysis")
    case True
    with own_resume [of i w] inv AnalysisResolved show ?thesis
      by (auto simp: flight_inv_def step_simps render_effects_frame resume_def
            startScan_afterAnalysis_def Let_def split: if_splits)
  next
    case False
    with inv AnalysisResolved show ?thesis
      by (auto simp: flight_inv_def step_simps render_effects_frame resume_def split: if_splits)
  qed
next
  case (ShowTimerFired i)
  show ?thesis
  proof (cases "i < length (tasks w) \<and> tasks w ! i = ShowTimer")
    case True
    with own_resume [of i w] inv ShowTimerFired show ?thesis
      by (auto simp: flight_inv_def step_simps render_effects_frame resume_def
            showTimer_callback_def split: if_splits)
  next
    case False
    with inv ShowTimerFired show ?thesis
      by (auto simp: flight_inv_def step_simps render_effects_frame resume_def split: if_splits)
  qed
next
  case (ReaderFinished i outcome now)
  with inv show ?thesis
    by (auto simp: flight_inv_def step_simps render_effects_frame readerFinished_frame split: if_splits)
next
  case (Navigate target)
  show ?thesis
  proof (cases "currentSection w = Scanning \<and> target \<noteq> Scanning")
    case True
    with ok Navigate have "\<not> isScanning w"
      by simp
    with inv True Navigate show ?thesis
      by (auto simp: flight_inv_def step_Navigate leave_scanning_def unmount_def
            effect_cleanup_def revokeObjectURL_def split: option.splits)
  next
    case False
    with inv Navigate show ?thesis
      by (auto simp: flight_inv_def step_Navigate)
  qed
next
  case (StaleDelayElapsed i)
  have "\<not> (i < length (orphans w) \<and> orphans w ! i = AwaitDelay)"
    using orphans_nth [of "orphans w" i] inv by (auto simp: flight_inv_def)
  then have "step e w = w"
    unfolding StaleDelayElapsed by (auto simp: step_simps resume_orphan_def)
  with inv show ?thesis
    by simp
next
  case (StaleAnalysisResolved i res)
  have "\<not> (i < length (orphans w) \<and> orphans w ! i = AwaitAnalysis)"
    using orphans_nth [of "orphans w" i] inv by (auto simp: flight_inv_def)
  then have "step e w = w"
    unfolding StaleAnalysisResolved by (auto simp: step_simps resume_orphan_def)
  with inv show ?thesis
    by simp
next
  case (StaleTimerFired i)
  with inv orphans_resume [of "orphans w" i] show ?thesis
    by (auto simp: flight_inv_def step_simps resume_orphan_def stale_showTimer_def)
qed

lemma flight_inv_run:
  "flight_inv w \<Longrightarrow> never_abandoned es w \<Longrightarrow> flight_inv (run es w)"
  by (induction es arbitrary: w) (simp_all add: flight_inv_step)

lemma startScan_noop: "isScanning v \<or> uploadedFile v = None \<Longrightarrow> step StartClick v = v"
  by (simp add: step_simps startScan_def render_effects_same)

lemma startScan_fires:
  assumes "\<not> isScanning w" and "uploadedFile w \<noteq> None"
  shows "step StartClick w =
           w\<lparr>isScanning := True, showResults := False, isDataSaved := False,
             tasks := tasks w @ [AwaitDelay]\<rparr>"
  using assms by (auto simp: step_simps startScan_def render_effects_same)

lemma idle_tasks:
  assumes "flight_inv w" and "\<not> isScanning w"
  shows "\<forall>t \<in> set (tasks w). t = ShowTimer"
  using assms by (simp add: flight_inv_def filter_empty_conv)

lemma idle_orphans:
  assumes "flight_inv w"
  shows "\<forall>t \<in> set (orphans w). t = ShowTimer"
  using assms by (simp add: flight_inv_def filter_empty_conv)

lemma delay_elapsed_counts:
  assumes inv: "flight_inv w" and go: "\<not> isScanning w" "uploadedFile w \<noteq> None"
  shows "analyzeCalls (step (DelayElapsed (length (tasks w))) (step StartClick w)) = Suc (analyzeCalls w)"
    and "analyzeCalls (step (DelayElapsed j)
            (step (DelayElapsed (length (tasks w))) (step StartClick w))) = Suc (analyzeCalls w)"
    and "analyzeCalls (step (StaleDelayElapsed j)
            (step (DelayElapsed (length (tasks w))) (step StartClick w))) = Suc (analyzeCalls w)"
proof -
  define w2 where "w2 = step (DelayElapsed (length (tasks w))) (step StartClick w)"
  have w1: "step StartClick w = w\<lparr>isScanning := True, showResults := False,
      isDataSaved := False, tasks := tasks w @ [AwaitDelay]\<rparr>"
    using go by (rule startScan_fires)
  have w2: "w2 = w\<lparr>isScanning := True, showResults := False, isDataSaved := False,
             tasks := tasks w @ [AwaitAnalysis], analyzeCalls := Suc (analyzeCalls w)\<rparr>"
    unfolding w2_def w1
    by (simp add: step_simps resume_def startScan_afterDelay_def render_effects_same)
  have calls: "analyzeCalls w2 = Suc (analyzeCalls w)"
    and ts: "tasks w2 = tasks w @ [AwaitAnalysis]"
    and os: "orphans w2 = orphans w"
    unfolding w2 by simp_all
  have no_delay: "\<not> (j < length (tasks w2) \<and> tasks w2 ! j = AwaitDelay)"
  proof
    assume a: "j < length (tasks w2) \<and> tasks w2 ! j = AwaitDelay"
    then have "AwaitDelay \<in> set (tasks w2)"
      by (metis nth_mem)
    then have "AwaitDelay \<in> set (tasks w)"
      unfolding ts by simp
    with idle_tasks [OF inv go(1)] show False by auto
  qed
  then have own: "step (DelayElapsed j) w2 = w2"
    by (auto simp: step_simps resume_def render_effects_same)
  have no_stale: "\<not> (j < length (orphans w2) \<and> orphans w2 ! j = AwaitDelay)"
  proof
    assume a: "j < length (orphans w2) \<and> orphans w2 ! j = AwaitDelay"
    then have "AwaitDelay \<in> set (orphans w2)"
      by (metis nth_mem)
    with idle_orphans [OF inv] show False
      unfolding os by auto
  qed
  then have stale: "step (StaleDelayElapsed j) w2 = w2"
    by (auto simp: step_simps resume_orphan_def)
  from calls own stale
  show "analyzeCalls (step (DelayElapsed (length (tasks w))) (step StartClick w)) = Suc (analyzeCalls w)"
    and "analyzeCalls (step (DelayElapsed j)
            (step (DelayElapsed (length (tasks w))) (step StartClick w))) = Suc (analyzeCalls w)"
    and "analyzeCalls (step (StaleDelayElapsed j)
            (step (DelayElapsed (length (tasks w))) (step StartClick w))) = Suc (analyzeCalls w)"
    unfolding w2_def by simp_all
qed

text \<open>
  Claim C2, amended: in every state, \<^verbatim>\<open>startScan\<close> changes nothing (and so calls no
  collaborator and leaves no continuation behind) while \<^verbatim>\<open>isScanning\<close> is set or no file
  is staged. Along every run in which, while \<^verbatim>\<open>isScanning\<close> is set, \<^verbatim>\<open>resetScan\<close> is not
  invoked and the scanning view is not left, the analyses in flight (those of views that
  are gone included) are one while \<^verbatim>\<open>isScanning\<close> is set and none otherwise, so never
  more than one; and from a state of such a run with a staged file and no analysis running,
  invoking \<^verbatim>\<open>startScan\<close> twice is the same as invoking it once, leaves exactly one
  analysis in flight, and leads to exactly one call of the analysis collaborator, made when
  the 2000 ms delay has elapsed.
\<close>

theorem startScan_single_flight:
  assumes quiet: "never_abandoned es initial_world"
  shows "(isScanning v \<or> uploadedFile v = None \<longrightarrow> step StartClick v = v)
     \<and> (let w = run es initial_world in
          inFlight w = (if isScanning w then 1 else 0)
          \<and> inFlight w \<le> 1
          \<and> (\<not> isScanning w \<and> uploadedFile w \<noteq> None \<longrightarrow>
               step StartClick (step StartClick w) = step StartClick w
               \<and> inFlight (step StartClick w) = 1
               \<and> analyzeCalls (step StartClick w) = analyzeCalls w
               \<and> analyzeCalls (step (DelayElapsed (length (tasks w)))
                    (step StartClick (step StartClick w))) = Suc (analyzeCalls w)
               \<and> (\<forall>j. analyzeCalls (step (DelayElapsed j) (step (DelayElapsed (length (tasks w)))
                    (step StartClick (step StartClick w)))) = Suc (analyzeCalls w))
               \<and> (\<forall>j. analyzeCalls (step (StaleDelayElapsed j) (step (DelayElapsed (length (tasks w)))
                    (step StartClick (step StartClick w)))) = Suc (analyzeCalls w))))"
proof -
  define w where "w = run es initial_world"
  have inv: "flight_inv w"
    unfolding w_def using flight_inv_initial quiet by (rule flight_inv_run)
  have eq: "inFlight w = (if isScanning w then 1 else 0)"
    using inv by (rule flight_inv_inFlight)
  have le: "inFlight w \<le> 1"
    using eq by (simp split: if_splits)
  have go: "step StartClick (step StartClick w) = step StartClick w
               \<and> inFlight (step StartClick w) = 1
               \<and> analyzeCalls (step StartClick w) = analyzeCalls w
               \<and> analyzeCalls (step (DelayElapsed (length (tasks w)))
                    (step StartClick (step StartClick w))) = Suc (analyzeCalls w)
               \<and> (\<forall>j. analyzeCalls (step (DelayElapsed j) (step (DelayElapsed (length (tasks w)))
                    (step StartClick (step StartClick w)))) = Suc (analyzeCalls w))
               \<and> (\<forall>j. analyzeCalls (step (StaleDelayElapsed j) (step (DelayElapsed (length (tasks w)))
                    (step StartClick (step StartClick w)))) = Suc (analyzeCalls w))"
    if a: "\<not> isScanning w" "uploadedFile w \<noteq> None"
  proof -
    have idle: "inFlight w = 0"
      using eq a by simp
    have w1: "step StartClick w = w\<lparr>isScanning := True, showResults := False,
        isDataSaved := False, tasks := tasks w @ [AwaitDelay]\<rparr>"
      using a by (rule startScan_fires)
    have again: "step StartClick (step StartClick w) = step StartClick w"
      by (rule startScan_noop) (simp add: w1)
    have one: "inFlight (step StartClick w) = 1"
      using idle unfolding w1 by (simp add: inFlight_def)
    have same: "analyzeCalls (step StartClick w) = analyzeCalls w"
      unfolding w1 by simp
    show ?thesis
      unfolding again using one same delay_elapsed_counts [OF inv a] by simp
  qed
  have noop: "isScanning v \<or> uploadedFile v = None \<longrightarrow> step StartClick v = v"
    using startScan_noop [of v] by blast
  have twice: "\<not> isScanning w \<and> uploadedFile w \<noteq> None \<longrightarrow>
               step StartClick (step StartClick w) = step StartClick w
               \<and> inFlight (step StartClick w) = 1
               \<and> analyzeCalls (step StartClick w) = analyzeCalls w
               \<and> analyzeCalls (step (DelayElapsed (length (tasks w)))
                    (step StartClick (step StartClick w))) = Suc (analyzeCalls w)
               \<and> (\<forall>j. analyzeCalls (step (DelayElapsed j) (step (DelayElapsed (length (tasks w)))
                    (step StartClick (step StartClick w)))) = Suc (analyzeCalls w))
               \<and> (\<forall>j. analyzeCalls (step (StaleDelayElapsed j) (step (DelayElapsed (length (tasks w)))
                    (step StartClick (step StartClick w)))) = Suc (analyzeCalls w))"
    using go by blast
  show ?thesis
    unfolding Let_def w_def [symmetric] by (intro conjI noop eq le twice)
qed

text \<open>
  The amended claim C2 at a concrete run: a scan is made and the scanning view is left
  and entered again while its last timer is pending; then a file is staged and the start
  button is pressed twice.
\<close>

theorem startScan_single_flight_witness:
  "never_abandoned [FileInput [sample_jpg], StartClick, DelayElapsed 0,
        AnalysisResolved 0 (Some sample_results), Navigate Home, Navigate Scanning,
        FileInput [sample_jpg]] initial_world
   \<and> orphans (run [FileInput [sample_jpg], StartClick, DelayElapsed 0,
        AnalysisResolved 0 (Some sample_results), Navigate Home, Navigate Scanning,
        FileInput [sample_jpg]] initial_world) = [ShowTimer]
   \<and> inFlight (run [FileInput [sample_jpg], StartClick, DelayElapsed 0,
        AnalysisResolved 0 (Some sample_results), Navigate Home, Navigate Scanning,
        FileInput [sample_jpg], StartClick, StartClick] initial_world) = 1
   \<and> analyzeCalls (run [FileInput [sample_jpg], StartClick, DelayElapsed 0,
        AnalysisResolved 0 (Some sample_results), Navigate Home, Navigate Scanning,
        FileInput [sample_jpg], StartClick, StartClick, DelayElapsed 0] initial_world) = 2"
proof -
  have quiet: "never_abandoned [FileInput [sample_jpg], StartClick, DelayElapsed 0,
        AnalysisResolved 0 (Some sample_results), Navigate Home, Navigate Scanning,
        FileInput [sample_jpg]] initial_world"
    by (simp add: handler_defs initial_world_def is_image_def sample_jpg_def)
  from startScan_single_flight [OF quiet, of initial_world] quiet show ?thesis
    by (simp add: handler_defs inFlight_def initial_world_def is_image_def sample_jpg_def)
qed

text \<open>
  Claim C2 as stated fails on its last part, in two ways. \<^verbatim>\<open>resetScan\<close> clears
  \<^verbatim>\<open>isScanning\<close> and leaves the pending call alone, so after a reset a second analysis
  starts while the first is still in flight. And leaving the scanning view drops the flag
  with the view while the pending call goes on, so after coming back a second analysis
  starts as well. In both runs, which the page can deliver event by event, two analyses
  are in flight and the collaborator is called for both.
\<close>

theorem two_analyses_in_flight:
  "feasible [FileInput [sample_jpg], StartClick, ResetClick, FileInput [sample_jpg],
        StartClick, DelayElapsed 0, DelayElapsed 0] initial_world
   \<and> \<not> inFlight (run [FileInput [sample_jpg], StartClick, ResetClick, FileInput [sample_jpg],
        StartClick] initial_world) \<le> 1
   \<and> analyzeCalls (run [FileInput [sample_jpg], StartClick, ResetClick, FileInput [sample_jpg],
        StartClick, DelayElapsed 0, DelayElapsed 0] initial_world) = 2
   \<and> tasks (run [FileInput [sample_jpg], StartClick, ResetClick, FileInput [sample_jpg],
        StartClick, DelayElapsed 0, DelayElapsed 0] initial_world) = [AwaitAnalysis, AwaitAnalysis]
   \<and> feasible [FileInput [sample_jpg], StartClick, Navigate Home, Navigate Scanning,
        FileInput [sample_jpg], StartClick, StaleDelayElapsed 0, DelayElapsed 0] initial_world
   \<and> \<not> inFlight (run [FileInput [sample_jpg], StartClick, Navigate Home, Navigate Scanning,
        FileInput [sample_jpg], StartClick] initial_world) \<le> 1
   \<and> analyzeCalls (run [FileInput [sample_jpg], StartClick, Navigate Home, Navigate Scanning,
        FileInput [sample_jpg], StartClick, StaleDelayElapsed 0, DelayElapsed 0] initial_world) = 2
   \<and> tasks (run [FileInput [sample_jpg], StartClick, Navigate Home, Navigate Scanning,
        FileInput [sample_jpg], StartClick, StaleDelayElapsed 0, DelayElapsed 0] initial_world)
       = [AwaitAnalysis]
   \<and> orphans (run [FileInput [sample_jpg], StartClick, Navigate Home, Navigate Scanning,
        FileInput [sample_jpg], StartClick, StaleDelayElapsed 0, DelayElapsed 0] initial_world)
       = [AwaitAnalysis]"
  by (simp add: handler_defs inFlight_def initial_world_def is_image_def sample_jpg_def)


section \<open>Saving, resetting, and an analysis without result\<close>

lemma handleSaveClick_noop:
  "scanResults v = None \<or> uploadedFile v = None \<or> isDataSaved v \<Longrightarrow> step SaveClick v = v"
  by (auto simp: step_simps handleSaveClick_def render_effects_same)

lemma handleSaveClick_fires:
  assumes "scanResults v = Some r" and "uploadedFile v = Some f" and "\<not> isDataSaved v"
  shows "step SaveClick v =
           v\<lparr>readers := readers v @ [(r, f)], saveCalls := saveCalls v @ [(r, f)],
             isDataSaved := True\<rparr>"
  using assms by (simp add: step_simps handleSaveClick_def handleSaveScan_def render_effects_same)

lemma readerFinished_last:
  assumes "readers v = rs @ [(r, f)]"
  shows "savedScans (step (ReaderFinished (length rs) outcome now) v)
     = \<lparr>results = r, image_str = fileReader_result outcome, timestamp = now\<rparr> # savedScans v"
  using assms
  by (cases outcome)
     (simp_all add: step_simps readerFinished_def onloadend_def onerror_def render_effects_frame)

text \<open>
  Claim C1: while the results or the staged file are absent, or the flag \<^verbatim>\<open>isDataSaved\<close>
  is set, \<^verbatim>\<open>handleSaveClick\<close> changes nothing and calls nobody. With results \<open>r\<close>, a
  staged file \<open>f\<close> and the flag not set, one invocation sets the flag and hands \<open>(r, f)\<close>
  to \<^verbatim>\<open>onSaveScan\<close> exactly once (one more logged call, one more pending reader, the list
  of saved scans untouched so far); a second invocation changes nothing; and when that one
  reader finishes, whatever the outcome of the read, the list of saved scans is the old list
  with exactly one entry in front.
\<close>

theorem handleSaveClick_once:
  "(scanResults v = None \<or> uploadedFile v = None \<or> isDataSaved v \<longrightarrow> step SaveClick v = v)
   \<and> (scanResults v = Some r \<and> uploadedFile v = Some f \<and> \<not> isDataSaved v \<longrightarrow>
        (let v1 = step SaveClick v; v2 = step SaveClick v1 in
           isDataSaved v1
           \<and> saveCalls v1 = saveCalls v @ [(r, f)]
           \<and> readers v1 = readers v @ [(r, f)]
           \<and> savedScans v1 = savedScans v
           \<and> v2 = v1
           \<and> (\<forall>outcome now.
                 savedScans (step (ReaderFinished (length (readers v)) outcome now) v2)
                   = \<lparr>results = r, image_str = fileReader_result outcome, timestamp = now\<rparr>
                       # savedScans v)))"
proof (intro conjI impI)
  assume "scanResults v = None \<or> uploadedFile v = None \<or> isDataSaved v"
  then show "step SaveClick v = v"
    by (rule handleSaveClick_noop)
next
  assume a: "scanResults v = Some r \<and> uploadedFile v = Some f \<and> \<not> isDataSaved v"
  define v1 where "v1 = step SaveClick v"
  have v1: "v1 = v\<lparr>readers := readers v @ [(r, f)], saveCalls := saveCalls v @ [(r, f)],
             isDataSaved := True\<rparr>"
    unfolding v1_def using a by (simp add: handleSaveClick_fires)
  have again: "step SaveClick v1 = v1"
    by (rule handleSaveClick_noop) (simp add: v1)
  have fin: "savedScans (step (ReaderFinished (length (readers v)) outcome now) v1)
      = \<lparr>results = r, image_str = fileReader_result outcome, timestamp = now\<rparr> # savedScans v"
    for outcome now
    using readerFinished_last [of v1 "readers v" r f outcome now]
    by (simp add: v1)
  show "let v1 = step SaveClick v; v2 = step SaveClick v1 in
           isDataSaved v1
           \<and> saveCalls v1 = saveCalls v @ [(r, f)]
           \<and> readers v1 = readers v @ [(r, f)]
           \<and> savedScans v1 = savedScans v
           \<and> v2 = v1
           \<and> (\<forall>outcome now.
                 savedScans (step (ReaderFinished (length (readers v)) outcome now) v2)
                   = \<lparr>results = r, image_str = fileReader_result outcome, timestamp = now\<rparr>
                       # savedScans v)"
    unfolding Let_def v1_def [symmetric] again using fin by (simp add: v1)
qed

lemma results_shown_reached:
  "run [FileInput [sample_jpg], StartClick, DelayElapsed 0,
        AnalysisResolved 0 (Some sample_results), ShowTimerFired 0] initial_world = results_shown"
  by (simp add: results_shown_def handler_defs initial_world_def is_image_def sample_jpg_def)

text \<open>
  Claim C1 at the state of the first scenario in which the results are shown: the save
  button is pressed twice and the read ends.
\<close>

theorem handleSaveClick_once_witness:
  "scanResults results_shown = Some sample_results
   \<and> uploadedFile results_shown = Some sample_jpg \<and> \<not> isDataSaved results_shown
   \<and> length (savedScans (run [SaveClick, SaveClick, ReaderFinished 0 (ReadOk ''data:image/jpeg;base64,AA=='') 7]
        results_shown)) = 1
   \<and> readers (run [SaveClick, SaveClick] results_shown) = [(sample_results, sample_jpg)]"
  using handleSaveClick_once [of results_shown sample_results sample_jpg]
  by (simp add: results_shown_def handler_defs initial_world_def)

lemma resetScan_fields:
  "uploadedFile (step ResetClick v) = None"
  "filePreviewUrl (step ResetClick v) = None"
  "scanResults (step ResetClick v) = None"
  "\<not> isScanning (step ResetClick v)"
  "\<not> showResults (step ResetClick v)"
  "isDataSaved (step ResetClick v) = isDataSaved v"
  "tasks (step ResetClick v) = tasks v"
  by (simp_all add: step_simps resetScan_def handleFileChange_def revokeObjectURL_def
      render_effects_frame split: option.splits)

text \<open>
  Claim C3, amended: in every state, \<^verbatim>\<open>resetScan\<close> leaves no staged file, no preview
  URL, no results, and the flags \<^verbatim>\<open>isScanning\<close> and \<^verbatim>\<open>showResults\<close> cleared; the flag
  \<^verbatim>\<open>isDataSaved\<close> keeps its value; and in every state reached from the first render no
  preview URL is live afterwards.
\<close>

theorem resetScan_clears:
  "uploadedFile (step ResetClick v) = None
   \<and> filePreviewUrl (step ResetClick v) = None
   \<and> scanResults (step ResetClick v) = None
   \<and> \<not> isScanning (step ResetClick v)
   \<and> \<not> showResults (step ResetClick v)
   \<and> isDataSaved (step ResetClick v) = isDataSaved v
   \<and> blobStore (step ResetClick (run es initial_world)) = []"
  using resetScan_releases [OF reachable_url_inv, of es]
  by (simp add: resetScan_fields)

text \<open>
  Claim C3 as stated fails for the flag \<^verbatim>\<open>isDataSaved\<close>: from the state in which the
  results are shown and have been saved, \<^verbatim>\<open>resetScan\<close> leaves the flag set.
\<close>

theorem resetScan_keeps_saved_flag:
  "showResults (run [SaveClick] results_shown)
   \<and> isDataSaved (run [SaveClick] results_shown)
   \<and> \<not> (\<not> isDataSaved (run [SaveClick, ResetClick] results_shown))"
  by (simp add: results_shown_def handler_defs initial_world_def)

text \<open>
  Claim C9: when the pending call of the analysis collaborator resolves to \<^verbatim>\<open>null\<close>,
  the only changes are that the results are absent, that \<^verbatim>\<open>isScanning\<close> is cleared and
  that the continuation is gone: \<^verbatim>\<open>showResults\<close> keeps its value and no timer that would
  set it is started, the staged file and its preview URL are as before, and no alert and no
  console message is issued.
\<close>

theorem analysis_absent_result:
  assumes "i < length (tasks v)" and "tasks v ! i = AwaitAnalysis"
  shows "step (AnalysisResolved i None) v
           = v\<lparr>scanResults := None, isScanning := False,
               tasks := take i (tasks v) @ drop (Suc i) (tasks v)\<rparr>
         \<and> scanResults (step (AnalysisResolved i None) v) = None
         \<and> \<not> isScanning (step (AnalysisResolved i None) v)
         \<and> showResults (step (AnalysisResolved i None) v) = showResults v
         \<and> uploadedFile (step (AnalysisResolved i None) v) = uploadedFile v
         \<and> filePreviewUrl (step (AnalysisResolved i None) v) = filePreviewUrl v
         \<and> alerts (step (AnalysisResolved i None) v) = alerts v
         \<and> consoleErrors (step (AnalysisResolved i None) v) = consoleErrors v
         \<and> length (filter (\<lambda>t. t = ShowTimer) (tasks (step (AnalysisResolved i None) v)))
             = length (filter (\<lambda>t. t = ShowTimer) (tasks v))"
proof -
  have eq: "step (AnalysisResolved i None) v
           = v\<lparr>scanResults := None, isScanning := False,
               tasks := take i (tasks v) @ drop (Suc i) (tasks v)\<rparr>"
    using assms
    by (simp add: step_simps resume_def startScan_afterAnalysis_def render_effects_same)
  have "length (filter (\<lambda>t. t = ShowTimer) (take i (tasks v) @ drop (Suc i) (tasks v)))
          + (if tasks v ! i = ShowTimer then 1 else 0)
        = length (filter (\<lambda>t. t = ShowTimer) (tasks v))"
    using assms(1) by (rule filter_remove_nth)
  then have timers: "length (filter (\<lambda>t. t = ShowTimer) (take i (tasks v) @ drop (Suc i) (tasks v)))
        = length (filter (\<lambda>t. t = ShowTimer) (tasks v))"
    using assms(2) by simp
  show ?thesis
    unfolding eq using timers by simp
qed

lemma analyzing_reached:
  "run [FileInput [sample_jpg], StartClick, DelayElapsed 0] initial_world = analyzing"
  by (simp add: analyzing_def handler_defs initial_world_def is_image_def sample_jpg_def)

text \<open>
  Claim C9 at the state of the first scenario in which the collaborator has been called:
  it answers \<^verbatim>\<open>null\<close>.
\<close>

theorem analysis_absent_result_witness:
  "0 < length (tasks analyzing) \<and> tasks analyzing ! 0 = AwaitAnalysis
   \<and> \<not> showResults (step (AnalysisResolved 0 None) analyzing)
   \<and> scanResults (step (AnalysisResolved 0 None) analyzing) = None
   \<and> \<not> isScanning (step (AnalysisResolved 0 None) analyzing)
   \<and> uploadedFile (step (AnalysisResolved 0 None) analyzing) = Some sample_jpg
   \<and> tasks (step (AnalysisResolved 0 None) analyzing) = []"
proof -
  have a: "0 < length (tasks analyzing)" and b: "tasks analyzing ! 0 = AwaitAnalysis"
    by (simp_all add: analyzing_def initial_world_def)
  from analysis_absent_result [OF a b] a b show ?thesis
    by (simp add: analyzing_def initial_world_def)
qed

text \<open>
  Claim C8 is not met by the code when the read fails. Whatever the outcome of the read,
  \<^verbatim>\<open>onloadend\<close> puts one new entry in front of the list of saved scans and leaves the
  entries behind it as they were. After a failed read the new entry has no image, and the
  user is told first that the save failed and then that it succeeded.
\<close>

theorem handleSaveScan_failed_read:
  "savedScans (step (ReaderFinished (length (readers v)) outcome now) (handleSaveScan r f v))
     = \<lparr>results = r, image_str = fileReader_result outcome, timestamp = now\<rparr> # savedScans v
   \<and> savedScans (step (ReaderFinished (length (readers v)) ReadFailed now) (handleSaveScan r f v))
     = \<lparr>results = r, image_str = None, timestamp = now\<rparr> # savedScans v
   \<and> alerts (step (ReaderFinished (length (readers v)) ReadFailed now) (handleSaveScan r f v))
     = alerts v @ [''Failed to save scan data.'', ''Scan data saved successfully!'']"
proof -
  have rd: "readers (handleSaveScan r f v) = readers v @ [(r, f)]"
    and sv: "savedScans (handleSaveScan r f v) = savedScans v"
    by (simp_all add: handleSaveScan_def)
  have general: "savedScans (step (ReaderFinished (length (readers v)) oc now) (handleSaveScan r f v))
     = \<lparr>results = r, image_str = fileReader_result oc, timestamp = now\<rparr> # savedScans v" for oc
    using readerFinished_last [OF rd, of oc now] by (simp add: sv)
  have al: "alerts (step (ReaderFinished (length (readers v)) ReadFailed now) (handleSaveScan r f v))
     = alerts v @ [''Failed to save scan data.'', ''Scan data saved successfully!'']"
    by (simp add: step_simps readerFinished_def handleSaveScan_def onloadend_def onerror_def
        render_effects_frame)
  show ?thesis
    using general [of outcome] general [of ReadFailed] al by simp
qed


section \<open>The counters of the results\<close>

text \<open>
  In a frame the callback registered last has the last word on the count, and it stays
  last for as long as it asks for another frame.
\<close>

lemma run_loops_Cons:
  "run_loops t (l # ls) c =
     (fst (run_loops t ls (fst (animate t l))),
      if snd (snd (animate t l))
      then fst (snd (animate t l)) # snd (run_loops t ls (fst (animate t l)))
      else snd (run_loops t ls (fst (animate t l))))"
  by (simp split: prod.splits)

lemma run_loops_last:
  "fst (run_loops t (ls @ [l]) c) = fst (animate t l)"
proof (induction ls arbitrary: c)
  case Nil
  show ?case by (simp only: append_Nil run_loops_Cons run_loops.simps fst_conv)
next
  case (Cons k ls)
  show ?case by (simp only: append_Cons run_loops_Cons fst_conv Cons.IH)
qed

lemma run_loops_keep_last:
  assumes "snd (snd (animate t l))"
  shows "snd (run_loops t (ls @ [l]) c) = snd (run_loops t ls c) @ [fst (snd (animate t l))]"
proof (induction ls arbitrary: c)
  case Nil
  show ?case using assms by (simp only: append_Nil run_loops_Cons run_loops.simps) simp
next
  case (Cons k ls)
  show ?case by (simp only: append_Cons run_loops_Cons Cons.IH) simp
qed

lemma frame_last:
  assumes "loops g = ls @ [l]"
  shows "count_hook (frame t g) = fst (animate t l)"
    and "snd (snd (animate t l)) \<Longrightarrow>
           loops (frame t g) = snd (run_loops t ls (count_hook g)) @ [fst (snd (animate t l))]"
proof -
  have c: "count_hook (frame t g) = fst (run_loops t (ls @ [l]) (count_hook g))"
    and k: "loops (frame t g) = snd (run_loops t (ls @ [l]) (count_hook g))"
    using assms by (simp_all add: frame_def split: prod.splits)
  show "count_hook (frame t g) = fst (animate t l)"
    unfolding c by (rule run_loops_last)
  show "loops (frame t g) = snd (run_loops t ls (count_hook g)) @ [fst (snd (animate t l))]"
    if "snd (snd (animate t l))"
    unfolding k using that by (rule run_loops_keep_last)
qed

text \<open>
  The interpolation at its two ends, for whole numbers below \<^verbatim>\<open>2 ** 52\<close> in magnitude,
  where no step rounds; and the progress on both sides of the duration.
\<close>

lemma lerp_start:
  assumes "\<bar>m\<bar> < 2 ^ 53"
  shows "lerp (of_int m) b 0 = of_int m"
  using assms by (simp add: lerp_def round_double_of_int)

lemma lerp_end:
  assumes "\<bar>m\<bar> < 2 ^ 52" and "\<bar>n\<bar> < 2 ^ 52"
  shows "lerp (of_int m) (of_int n) 1 = of_int n"
proof -
  have d: "\<bar>n - m\<bar> < 2 ^ 53" and n: "\<bar>n\<bar> < 2 ^ 53"
    using assms by simp_all
  have "round_double (of_int n - of_int m) = of_int (n - m)"
    using round_double_of_int [OF d] by simp
  then have "lerp (of_int m) (of_int n) 1 = round_double (of_int m + of_int (n - m))"
    using round_double_of_int [OF d] by (simp add: lerp_def)
  also have "\<dots> = of_int n"
    using round_double_of_int [OF n] by simp
  finally show ?thesis .
qed

lemma progress_done:
  assumes "1500 \<le> d"
  shows "min (round_double (round_double d / 1500)) 1 = 1"
proof -
  have "is_double 1500"
    using is_double_of_int [of 1500] by simp
  then have "1500 \<le> round_double d"
    using assms by (rule round_double_ge)
  then have "1 \<le> round_double d / 1500"
    by simp
  moreover have "is_double 1"
    using is_double_of_int [of 1] by simp
  ultimately have "1 \<le> round_double (round_double d / 1500)"
    by (rule round_double_ge [rotated])
  then show ?thesis
    by (simp add: min_def)
qed

lemma progress_running:
  assumes "d \<le> 1499"
  shows "round_double (round_double d / 1500) < 1"
proof -
  have "is_double 1499"
    using is_double_of_int [of 1499] by simp
  then have "round_double d \<le> 1499"
    using assms by (rule round_double_le)
  then have q: "round_double d / 1500 \<le> 2047 / 2048"
    by simp
  have "is_double (2047 / 2048)"
    unfolding is_double_def
  proof (rule round_double_exact [where k = 2047 and g = "- 11"])
    show "(2047 / 2048 :: real) = real_of_int 2047 * 2 powr real_of_int (- 11)"
      using two_powr_neg [of 11] by simp
    have "(2::real) powr real_of_int (- 11 + 53) = 2 ^ 42"
      by (simp add: powr_realpow [symmetric])
    then show "\<bar>2047 / 2048 :: real\<bar> < 2 powr real_of_int (- 11 + 53)"
      by simp
  qed simp
  then have "round_double (round_double d / 1500) \<le> 2047 / 2048"
    using q by (rule round_double_le)
  then show ?thesis
    by simp
qed

lemma animate_first:
  assumes "startTime l = None" and "t \<noteq> 0" and "startCount l = of_int m" and "\<bar>m\<bar> < 2 ^ 53"
  shows "animate t l = (m, l\<lparr>startTime := Some t\<rparr>, True)"
  using assms by (simp add: animate_def Let_def lerp_start)

lemma animate_later:
  assumes "startTime l = Some st" and "st \<noteq> 0"
  shows "animate t l =
           (\<lfloor>lerp (startCount l) (loop_target l)
               (min (round_double (round_double (t - st) / loop_duration l)) 1)\<rfloor>,
            l, round_double (round_double (t - st) / loop_duration l) < 1)"
  using assms by (auto simp: animate_def Let_def min_def)

lemma useAnimatedCounter_same:
  "dep_target h = target \<Longrightarrow> dep_duration h = duration \<Longrightarrow> useAnimatedCounter target duration h = h"
  by (simp add: useAnimatedCounter_def)

lemma useAnimatedCounter_restart:
  assumes "dep_target h \<noteq> target"
  shows "loops (useAnimatedCounter target duration h)
           = loops h @ [\<lparr>startCount = dep_target h, loop_target = target,
                          loop_duration = duration, startTime = None\<rparr>]"
    and "dep_target (useAnimatedCounter target duration h) = target"
    and "dep_duration (useAnimatedCounter target duration h) = duration"
    and "count_hook (useAnimatedCounter target duration h) = count_hook h"
  using assms by (simp_all add: useAnimatedCounter_def counter_effect_def counter_cleanup_def)

lemma counter_first_frame:
  assumes ls: "loops g = ks @ [l]" and l: "startTime l = None" "startCount l = of_int m"
    and t: "t \<noteq> 0" and m: "\<bar>m\<bar> < 2 ^ 53"
  shows "count_hook (frame t g) = m"
    and "loops (frame t g) = snd (run_loops t ks (count_hook g)) @ [l\<lparr>startTime := Some t\<rparr>]"
proof -
  have a: "animate t l = (m, l\<lparr>startTime := Some t\<rparr>, True)"
    using l(1) t l(2) m by (rule animate_first)
  show "count_hook (frame t g) = m"
    using frame_last(1) [OF ls, of t] by (simp add: a)
  show "loops (frame t g) = snd (run_loops t ks (count_hook g)) @ [l\<lparr>startTime := Some t\<rparr>]"
    using frame_last(2) [OF ls, of t] by (simp add: a)
qed

lemma counter_later_frame:
  assumes ls: "loops g = ks @ [l]" and l: "startTime l = Some st" "st \<noteq> 0"
  shows "count_hook (frame t g)
           = \<lfloor>lerp (startCount l) (loop_target l)
                (min (round_double (round_double (t - st) / loop_duration l)) 1)\<rfloor>"
    and "round_double (round_double (t - st) / loop_duration l) < 1 \<Longrightarrow>
           loops (frame t g) = snd (run_loops t ks (count_hook g)) @ [l]"
proof -
  note a = animate_later [OF l, of t]
  show "count_hook (frame t g)
           = \<lfloor>lerp (startCount l) (loop_target l)
                (min (round_double (round_double (t - st) / loop_duration l)) 1)\<rfloor>"
    using frame_last(1) [OF ls, of t] by (simp add: a)
  show "loops (frame t g) = snd (run_loops t ks (count_hook g)) @ [l]"
    if "round_double (round_double (t - st) / loop_duration l) < 1"
    using frame_last(2) [OF ls, of t] that by (simp add: a)
qed

lemma counter_last_frame:
  assumes ls: "loops g = ks @ [l]" and l: "startTime l = Some st" "st \<noteq> 0"
    and v: "startCount l = of_int m" "loop_target l = of_int n" "loop_duration l = 1500"
    and small: "\<bar>m\<bar> < 2 ^ 52" "\<bar>n\<bar> < 2 ^ 52" and late: "1500 \<le> t - st"
  shows "count_hook (frame t g) = n"
  using counter_later_frame(1) [OF ls l, of t] progress_done [OF late] lerp_end [OF small]
  by (simp add: v)

text \<open>
  Rounding shows in the count. In an animation from 0 to 100, at a frame 855 ms after the
  first one, the quotient \<^verbatim>\<open>855 / 1500\<close> is the double just below 0.57, its product with
  100 is the double just below 57, and the counter shows 56, where exact arithmetic would
  give 57.
\<close>

lemma progress_855: "round_double (855 / 1500) = 5134103575202365 / 2 ^ 53"
proof -
  have "\<lfloor>(855 / 1500 :: real) * 2 ^ 53\<rfloor> = 5134103575202365"
    by (simp add: floor_eq_iff)
  then have "round_even ((855 / 1500) * 2 ^ 53) = 5134103575202365"
    by (simp add: round_even_def Let_def)
  then show ?thesis
    by (intro round_double_scaled [where k = 5134103575202365, simplified]) simp_all
qed

lemma product_855: "round_double (100 * (5134103575202365 / 2 ^ 53)) = 8022036836253695 / 2 ^ 47"
proof -
  have "\<lfloor>(100 * (5134103575202365 / 2 ^ 53) :: real) * 2 ^ 47\<rfloor> = 8022036836253695"
    by (simp add: floor_eq_iff)
  then have "round_even ((100 * (5134103575202365 / 2 ^ 53)) * 2 ^ 47) = 8022036836253695"
    by (simp add: round_even_def Let_def)
  then show ?thesis
    by (intro round_double_scaled [where k = 8022036836253695, simplified]) simp_all
qed

lemma sum_855: "round_double (8022036836253695 / 2 ^ 47) = 8022036836253695 / 2 ^ 47"
proof (rule round_double_exact [where k = 8022036836253695 and g = "- 47"])
  show "(8022036836253695 / 2 ^ 47 :: real) = real_of_int 8022036836253695 * 2 powr real_of_int (- 47)"
    using two_powr_neg [of 47] by simp
  have "(2::real) powr real_of_int (- 47 + 53) = 2 ^ 6"
    by (simp add: powr_realpow [symmetric])
  then show "\<bar>8022036836253695 / 2 ^ 47 :: real\<bar> < 2 powr real_of_int (- 47 + 53)"
    by simp
qed simp

lemma lerp_855: "\<lfloor>lerp 0 100 (min (round_double (round_double (1855 - 1000) / 1500)) 1)\<rfloor> = 56"
proof -
  have a: "round_double (1855 - 1000) = 855"
    using round_double_of_int [of 855] by simp
  have b: "min (round_double (855 / 1500)) 1 = 5134103575202365 / 2 ^ 53"
    unfolding progress_855 by simp
  have c: "round_double 100 = 100"
    using round_double_of_int [of 100] by simp
  have "lerp 0 100 (5134103575202365 / 2 ^ 53) = 8022036836253695 / 2 ^ 47"
    unfolding lerp_def by (simp only: diff_zero c product_855 add_0 sum_855)
  moreover have "\<lfloor>8022036836253695 / 2 ^ 47 :: real\<rfloor> = 56"
    by (simp add: floor_eq_iff)
  ultimately show ?thesis
    by (simp only: a b)
qed

lemma counter_rounding_example:
  "count_hook (frame 1855 (frame 1000 (useAnimatedCounter 100 default_duration
      (useAnimatedCounter_mount 0 default_duration)))) = 56"
proof -
  define h where "h = useAnimatedCounter 100 default_duration
      (useAnimatedCounter_mount 0 default_duration)"
  define l where "l = \<lparr>startCount = 0, loop_target = 100, loop_duration = 1500,
      startTime = None\<rparr>"
  have ls: "loops h = loops (useAnimatedCounter_mount 0 default_duration) @ [l]"
    unfolding h_def l_def
    using useAnimatedCounter_restart(1) [of "useAnimatedCounter_mount 0 default_duration" 100
        default_duration]
    by (simp add: useAnimatedCounter_mount_def counter_effect_def default_duration_def)
  have l1: "loops (frame 1000 h)
      = snd (run_loops 1000 (loops (useAnimatedCounter_mount 0 default_duration)) (count_hook h))
          @ [l\<lparr>startTime := Some 1000\<rparr>]"
    by (rule counter_first_frame(2) [OF ls, where m = 0]) (simp_all add: l_def)
  have "count_hook (frame 1855 (frame 1000 h))
      = \<lfloor>lerp 0 100 (min (round_double (round_double (1855 - 1000) / 1500)) 1)\<rfloor>"
    using counter_later_frame(1) [OF l1, of 1000 1855] by (simp add: l_def)
  then show ?thesis
    unfolding h_def by (simp only: lerp_855)
qed

lemma round_double_numeral:
  "numeral k < (2::int) ^ 53 \<Longrightarrow> round_double (numeral k) = numeral k"
  "numeral k < (2::int) ^ 53 \<Longrightarrow> round_double (- numeral k) = - numeral k"
  "round_double 1 = 1"
  using round_double_of_int [of "numeral k"] round_double_of_int [of "- numeral k"]
    round_double_of_int [of 1]
  by simp_all

lemma rescan_while_shown_reached:
  "run rescan_while_shown initial_world
     = initial_world\<lparr>isScanning := True, scanResults := Some sample_results, showResults := True,
         uploadedFile := Some sample_jpg, filePreviewUrl := Some 0, blobStore := [0],
         nextBlob := 1, urlCalls := [CreateObjectURL 0], tasks := [AwaitAnalysis],
         analyzeCalls := 2\<rparr>"
  by (simp add: rescan_while_shown_def handler_defs initial_world_def is_image_def sample_jpg_def)

text \<open>
  Claim C4 as stated fails on the start value: the new animation starts from the previous
  target of the counter, not from 0. In a run that the page can deliver event by event,
  the start button is pressed again before the first results are shown, so the second
  results arrive while \<^verbatim>\<open>showResults\<close> is set: the target of the plankton counter goes
  from 1200 to 7 in one render. The counter has shown 0 at 1000 ms and 1200 at 2500 ms;
  the first frame of the new animation, at 5000 ms, shows 1200.
\<close>

theorem counter_restarts_from_previous_target:
  "feasible (rescan_while_shown @ [AnalysisResolved 0 (Some second_results)]) initial_world
   \<and> showResults (run rescan_while_shown initial_world)
   \<and> counterTarget plankton (run rescan_while_shown initial_world) = 1200
   \<and> showResults (run (rescan_while_shown @ [AnalysisResolved 0 (Some second_results)])
        initial_world)
   \<and> scanResults (run (rescan_while_shown @ [AnalysisResolved 0 (Some second_results)])
        initial_world) = Some second_results
   \<and> counterTarget plankton
        (run (rescan_while_shown @ [AnalysisResolved 0 (Some second_results)]) initial_world) = 7
   \<and> count_hook (frame 2500 (frame 1000 (useAnimatedCounter 1200 default_duration
        (useAnimatedCounter_mount 0 default_duration)))) = 1200
   \<and> count_hook (frame 5000 (useAnimatedCounter 7 default_duration
        (frame 2500 (frame 1000 (useAnimatedCounter 1200 default_duration
          (useAnimatedCounter_mount 0 default_duration)))))) = 1200
   \<and> \<not> count_hook (frame 5000 (useAnimatedCounter 7 default_duration
        (frame 2500 (frame 1000 (useAnimatedCounter 1200 default_duration
          (useAnimatedCounter_mount 0 default_duration)))))) = 0"
proof -
  have world: "feasible (rescan_while_shown @ [AnalysisResolved 0 (Some second_results)]) initial_world
   \<and> showResults (run rescan_while_shown initial_world)
   \<and> counterTarget plankton (run rescan_while_shown initial_world) = 1200
   \<and> showResults (run (rescan_while_shown @ [AnalysisResolved 0 (Some second_results)])
        initial_world)
   \<and> scanResults (run (rescan_while_shown @ [AnalysisResolved 0 (Some second_results)])
        initial_world) = Some second_results
   \<and> counterTarget plankton
        (run (rescan_while_shown @ [AnalysisResolved 0 (Some second_results)]) initial_world) = 7"
    by (simp add: rescan_while_shown_def handler_defs initial_world_def is_image_def
        sample_jpg_def counterTarget_def sample_results_def second_results_def)
  define h1 where "h1 = useAnimatedCounter 1200 default_duration
      (useAnimatedCounter_mount 0 default_duration)"
  define h2 where "h2 = frame 2500 (frame 1000 h1)"
  have h2: "count_hook h2 = 1200 \<and> dep_target h2 = 1200 \<and> dep_duration h2 = default_duration"
    unfolding h2_def h1_def
    by (simp add: useAnimatedCounter_mount_def useAnimatedCounter_def counter_effect_def
        counter_cleanup_def default_duration_def frame_def animate_def lerp_def Let_def
        round_double_numeral)
  have l3: "loops (useAnimatedCounter 7 default_duration h2)
      = loops h2 @ [\<lparr>startCount = of_int 1200, loop_target = 7,
                       loop_duration = default_duration, startTime = None\<rparr>]"
    using useAnimatedCounter_restart(1) [of h2 7 default_duration] h2 by simp
  have "count_hook (frame 5000 (useAnimatedCounter 7 default_duration h2)) = 1200"
    by (rule counter_first_frame(1) [OF l3]) simp_all
  with world h2 show ?thesis
    unfolding h2_def h1_def by simp
qed

text \<open>
  Claim C4, amended: the counter of a category is rendered with target 0 while the results
  are not shown, and with the count of that category alone while results are shown. When
  the target of a counter changes from \<open>m\<close> to \<open>n\<close> (whole numbers below \<^verbatim>\<open>2 ** 52\<close> in
  magnitude), a new animation is registered behind the ones still running, with start
  count \<open>m\<close>, the previous target, and duration 1500; for \<open>n = m\<close> nothing restarts. The
  first frame of the animation shows \<open>m\<close> and fixes the start time \<open>st\<close>; every later
  frame at time \<open>t\<close> shows the floor of the linear interpolation from \<open>m\<close> to \<open>n\<close> at the
  progress, which is the quotient of \<open>t - st\<close> and 1500 in double arithmetic, capped at 1;
  the animation goes on while the progress is below 1, which it is up to
  \<open>t - st = 1499\<close>; and a frame with \<open>t - st \<ge> 1500\<close> shows \<open>n\<close>. So the counter
  starts from 0 exactly when its previous target is 0, which is the case when the results
  were not shown before.
\<close>

theorem counter_animates_from_previous_target:
  assumes prev: "dep_target h = of_int m"
    and dur: "dep_duration h = default_duration"
    and small: "\<bar>m\<bar> < 2 ^ 52" "\<bar>n\<bar> < 2 ^ 52"
  shows "let h' = useAnimatedCounter (of_int n) default_duration h;
             l = \<lparr>startCount = of_int m, loop_target = of_int n, loop_duration = 1500,
                  startTime = None\<rparr>
         in (n = m \<longrightarrow> h' = h)
            \<and> (n \<noteq> m \<longrightarrow>
                  loops h' = loops h @ [l]
                  \<and> (\<forall>t. t \<noteq> 0 \<longrightarrow>
                        count_hook (frame t h') = m
                        \<and> (\<exists>ls. loops (frame t h') = ls @ [l\<lparr>startTime := Some t\<rparr>])))
            \<and> (\<forall>t st g ls. st \<noteq> 0 \<and> loops g = ls @ [l\<lparr>startTime := Some st\<rparr>] \<longrightarrow>
                  (let progress = min (round_double (round_double (t - st) / 1500)) 1
                   in count_hook (frame t g) = \<lfloor>lerp (of_int m) (of_int n) progress\<rfloor>
                      \<and> (progress < 1 \<longrightarrow>
                            (\<exists>ls'. loops (frame t g) = ls' @ [l\<lparr>startTime := Some st\<rparr>]))
                      \<and> (t - st \<le> 1499 \<longrightarrow> progress < 1)
                      \<and> (1500 \<le> t - st \<longrightarrow> count_hook (frame t g) = n)))
            \<and> counterTarget category (w\<lparr>showResults := False\<rparr>) = 0
            \<and> (scanResults w = Some r \<longrightarrow>
                  counterTarget category (w\<lparr>showResults := True\<rparr>) = of_int (count (category r)))"
proof -
  define l where "l = \<lparr>startCount = of_int m, loop_target = of_int n, loop_duration = 1500,
                  startTime = None\<rparr>"
  define h' where "h' = useAnimatedCounter (of_int n) default_duration h"
  have m53: "\<bar>m\<bar> < 2 ^ 53"
    using small(1) by simp
  have same: "h' = h" if "n = m"
    unfolding h'_def using prev dur that by (simp add: useAnimatedCounter_same)
  have ls: "loops h' = loops h @ [l]" if "n \<noteq> m"
    unfolding h'_def l_def
    using useAnimatedCounter_restart(1) [of h "of_int n" default_duration] prev that
    by (simp add: default_duration_def)
  have first: "count_hook (frame t h') = m
      \<and> (\<exists>ls. loops (frame t h') = ls @ [l\<lparr>startTime := Some t\<rparr>])" if "n \<noteq> m" "t \<noteq> 0" for t
  proof -
    have a: "startTime l = None" and b: "startCount l = of_int m"
      by (simp_all add: l_def)
    from counter_first_frame [OF ls [OF that(1)] a b that(2) m53] show ?thesis
      by blast
  qed
  have later: "count_hook (frame t g) = \<lfloor>lerp (of_int m) (of_int n) (min (round_double (round_double (t - st) / 1500)) 1)\<rfloor>
                      \<and> (min (round_double (round_double (t - st) / 1500)) 1 < 1 \<longrightarrow>
                            (\<exists>ls'. loops (frame t g) = ls' @ [l\<lparr>startTime := Some st\<rparr>]))
                      \<and> (t - st \<le> 1499 \<longrightarrow> min (round_double (round_double (t - st) / 1500)) 1 < 1)
                      \<and> (1500 \<le> t - st \<longrightarrow> count_hook (frame t g) = n)"
    if g: "st \<noteq> 0 \<and> loops g = ks @ [l\<lparr>startTime := Some st\<rparr>]" for t st g ks
  proof -
    define k where "k = l\<lparr>startTime := Some st\<rparr>"
    have gk: "loops g = ks @ [k]" and st: "startTime k = Some st" "st \<noteq> 0"
      and v: "startCount k = of_int m" "loop_target k = of_int n" "loop_duration k = 1500"
      using g by (simp_all add: k_def l_def)
    have c: "count_hook (frame t g)
        = \<lfloor>lerp (of_int m) (of_int n) (min (round_double (round_double (t - st) / 1500)) 1)\<rfloor>"
      using counter_later_frame(1) [OF gk st, of t] by (simp add: v)
    have keep: "\<exists>ls'. loops (frame t g) = ls' @ [k]"
      if "min (round_double (round_double (t - st) / 1500)) 1 < 1"
    proof -
      from that have "round_double (round_double (t - st) / loop_duration k) < 1"
        by (simp add: v)
      from counter_later_frame(2) [OF gk st this] show ?thesis
        by blast
    qed
    have run: "min (round_double (round_double (t - st) / 1500)) 1 < 1" if "t - st \<le> 1499"
      using progress_running [OF that] by simp
    have fin: "count_hook (frame t g) = n" if "1500 \<le> t - st"
      using gk st v small that by (rule counter_last_frame)
    from c keep run fin show ?thesis
      unfolding k_def by blast
  qed
  have hidden: "counterTarget category (w\<lparr>showResults := False\<rparr>) = 0"
    by (simp add: counterTarget_def)
  have shown: "scanResults w = Some r \<longrightarrow>
      counterTarget category (w\<lparr>showResults := True\<rparr>) = of_int (count (category r))"
    by (simp add: counterTarget_def)
  have A: "n = m \<longrightarrow> h' = h"
    using same by blast
  have B: "n \<noteq> m \<longrightarrow>
                  loops h' = loops h @ [l]
                  \<and> (\<forall>t. t \<noteq> 0 \<longrightarrow>
                        count_hook (frame t h') = m
                        \<and> (\<exists>ls. loops (frame t h') = ls @ [l\<lparr>startTime := Some t\<rparr>]))"
    using ls first by blast
  have C: "\<forall>t st g ls. st \<noteq> 0 \<and> loops g = ls @ [l\<lparr>startTime := Some st\<rparr>] \<longrightarrow>
                  (count_hook (frame t g) = \<lfloor>lerp (of_int m) (of_int n) (min (round_double (round_double (t - st) / 1500)) 1)\<rfloor>
                      \<and> (min (round_double (round_double (t - st) / 1500)) 1 < 1 \<longrightarrow>
                            (\<exists>ls'. loops (frame t g) = ls' @ [l\<lparr>startTime := Some st\<rparr>]))
                      \<and> (t - st \<le> 1499 \<longrightarrow> min (round_double (round_double (t - st) / 1500)) 1 < 1)
                      \<and> (1500 \<le> t - st \<longrightarrow> count_hook (frame t g) = n))"
    using later by blast
  show ?thesis
    unfolding Let_def h'_def [symmetric] l_def [symmetric]
    by (intro conjI A B C hidden shown)
qed

text \<open>
  The amended claim C4 for the plankton counter of the first scenario, whose target goes
  from 0 to 1200 when the results are shown, with frames at 1000 ms, 1750 ms and 2500 ms:
  the counter shows 0 at the first frame, is still running at the second, and shows 1200
  at the third.
\<close>

theorem counter_animates_from_previous_target_witness:
  "dep_target (useAnimatedCounter_mount 0 default_duration) = of_int 0
   \<and> dep_duration (useAnimatedCounter_mount 0 default_duration) = default_duration
   \<and> \<bar>0 :: int\<bar> < 2 ^ 52 \<and> \<bar>1200 :: int\<bar> < 2 ^ 52 \<and> (1200 :: int) \<noteq> 0
   \<and> scanResults results_shown = Some sample_results
   \<and> counterTarget plankton (results_shown\<lparr>showResults := False\<rparr>) = 0
   \<and> counterTarget plankton (results_shown\<lparr>showResults := True\<rparr>) = 1200
   \<and> count_hook (frame 1000 (useAnimatedCounter 1200 default_duration
        (useAnimatedCounter_mount 0 default_duration))) = 0
   \<and> (1750 :: real) - 1000 \<le> 1499
   \<and> (1500 :: real) \<le> 2500 - 1000
   \<and> count_hook (frame 2500 (frame 1750 (frame 1000 (useAnimatedCounter 1200 default_duration
        (useAnimatedCounter_mount 0 default_duration))))) = 1200"
proof -
  define h where "h = useAnimatedCounter_mount 0 default_duration"
  define h' where "h' = useAnimatedCounter 1200 default_duration h"
  define l where "l = \<lparr>startCount = 0, loop_target = 1200, loop_duration = 1500,
      startTime = None\<rparr>"
  have prev: "dep_target h = of_int 0" and dur: "dep_duration h = default_duration"
    by (simp_all add: h_def useAnimatedCounter_mount_def counter_effect_def)
  have s0: "\<bar>0 :: int\<bar> < 2 ^ 52" and s1: "\<bar>1200 :: int\<bar> < 2 ^ 52"
    by simp_all
  have res: "scanResults results_shown = Some sample_results"
    by (simp add: results_shown_def initial_world_def)
  note T = counter_animates_from_previous_target
    [OF prev dur s0 s1, where category = plankton and w = results_shown and r = sample_results,
     unfolded Let_def]
  have changed: "(1200 :: int) \<noteq> 0"
    by simp
  note first = T [THEN conjunct2, THEN conjunct1, THEN mp, OF changed, THEN conjunct2, rule_format]
  note later = T [THEN conjunct2, THEN conjunct2, THEN conjunct1, rule_format]
  note shown = T [THEN conjunct2, THEN conjunct2, THEN conjunct2]
  from shown res have target: "counterTarget plankton (results_shown\<lparr>showResults := False\<rparr>) = 0
      \<and> counterTarget plankton (results_shown\<lparr>showResults := True\<rparr>) = 1200"
    by (simp add: sample_results_def)
  from first [of 1000] obtain ls1 where c1: "count_hook (frame 1000 h') = 0"
    and l1: "loops (frame 1000 h') = ls1 @ [l\<lparr>startTime := Some 1000\<rparr>]"
    by (auto simp: h'_def l_def)
  from later [of 1000 "frame 1000 h'" ls1 1750] l1
  obtain ls2 where l2: "loops (frame 1750 (frame 1000 h')) = ls2 @ [l\<lparr>startTime := Some 1000\<rparr>]"
    by (auto simp: l_def)
  from later [of 1000 "frame 1750 (frame 1000 h')" ls2 2500] l2
  have c3: "count_hook (frame 2500 (frame 1750 (frame 1000 h'))) = 1200"
    by (simp add: l_def)
  from prev dur res target c1 c3 show ?thesis
    unfolding h'_def h_def by simp
qed

end
